theory Spec2Isabelle
  imports Complex_Main "HOL-Library.Multiset"
begin

section \<open>Floating-point values\<close>

text \<open>
  The program computes with \<^verbatim>\<open>double\<close> and, through the literals \<^verbatim>\<open>8.L\<close>, \<^verbatim>\<open>4.L\<close>,
  \<^verbatim>\<open>3.L\<close> and \<^verbatim>\<open>0.0L\<close>, with \<^verbatim>\<open>long double\<close>. A value of either type is a NaN, an
  infinity with its sign (\<open>True\<close> is negative), or a finite number. The two zeros compare
  equal and the program never divides, so both are \<open>Finite 0\<close>.
\<close>

datatype fp = NaN | Infinity bool | Finite real

type_synonym double = fp
type_synonym long_double = fp

text \<open>
  What the language leaves to the implementation is a parameter of the model: how an exact
  real result is rounded into each of the two formats (to a finite value of the format, or
  to an infinity on overflow), and what the library function \<^verbatim>\<open>std::atan\<close> returns.
\<close>

record platform =
  round_double :: "real \<Rightarrow> double"
  round_long_double :: "real \<Rightarrow> long_double"
  std_atan :: "double \<Rightarrow> double"

text \<open>The comparison \<^verbatim>\<open>a < b\<close>: false as soon as an operand is a NaN.\<close>

fun flt :: "fp \<Rightarrow> fp \<Rightarrow> bool" where
  "flt NaN _ = False"
| "flt _ NaN = False"
| "flt (Finite x) (Finite y) = (x < y)"
| "flt (Finite x) (Infinity t) = (\<not> t)"
| "flt (Infinity s) (Finite y) = s"
| "flt (Infinity s) (Infinity t) = (s \<and> \<not> t)"

text \<open>The comparison \<^verbatim>\<open>a >= b\<close>, in which the specification speaks of a dimension.\<close>

fun fge :: "fp \<Rightarrow> fp \<Rightarrow> bool" where
  "fge NaN _ = False"
| "fge _ NaN = False"
| "fge (Finite x) (Finite y) = (y \<le> x)"
| "fge (Finite x) (Infinity t) = t"
| "fge (Infinity s) (Finite y) = (\<not> s)"
| "fge (Infinity s) (Infinity t) = (\<not> s \<or> t)"

text \<open>
  Multiplication and addition in a format whose rounding is \<open>rnd\<close>: the exact result,
  rounded, on finite operands; the usual rules on the others.
\<close>

fun fmul :: "(real \<Rightarrow> fp) \<Rightarrow> fp \<Rightarrow> fp \<Rightarrow> fp" where
  "fmul rnd NaN _ = NaN"
| "fmul rnd _ NaN = NaN"
| "fmul rnd (Finite x) (Finite y) = rnd (x * y)"
| "fmul rnd (Finite x) (Infinity t) = (if x = 0 then NaN else Infinity (t \<noteq> (x < 0)))"
| "fmul rnd (Infinity s) (Finite y) = (if y = 0 then NaN else Infinity (s \<noteq> (y < 0)))"
| "fmul rnd (Infinity s) (Infinity t) = Infinity (s \<noteq> t)"

fun fadd :: "(real \<Rightarrow> fp) \<Rightarrow> fp \<Rightarrow> fp \<Rightarrow> fp" where
  "fadd rnd NaN _ = NaN"
| "fadd rnd _ NaN = NaN"
| "fadd rnd (Finite x) (Finite y) = rnd (x + y)"
| "fadd rnd (Finite x) (Infinity t) = Infinity t"
| "fadd rnd (Infinity s) (Finite y) = Infinity s"
| "fadd rnd (Infinity s) (Infinity t) = (if s = t then Infinity s else NaN)"

definition dbl_add :: "platform \<Rightarrow> double \<Rightarrow> double \<Rightarrow> double" where
  "dbl_add P a b = fadd (round_double P) a b"

definition ldbl_mul :: "platform \<Rightarrow> long_double \<Rightarrow> long_double \<Rightarrow> long_double" where
  "ldbl_mul P a b = fmul (round_long_double P) a b"

text \<open>
  Conversions. Every \<^verbatim>\<open>double\<close> value is a \<^verbatim>\<open>long double\<close> value, so widening keeps
  the value; narrowing rounds a finite value into \<^verbatim>\<open>double\<close>. An \<^verbatim>\<open>int\<close> as small
  as the program's \<^verbatim>\<open>0\<close> and \<^verbatim>\<open>1\<close> converts exactly.
\<close>

definition to_long_double :: "double \<Rightarrow> long_double" where
  "to_long_double d = d"

definition to_double :: "platform \<Rightarrow> long_double \<Rightarrow> double" where
  "to_double P x = (case x of Finite v \<Rightarrow> round_double P v | _ \<Rightarrow> x)"

definition int_to_double :: "int \<Rightarrow> double" where
  "int_to_double i = Finite (of_int i)"

section \<open>Shapes\<close>

text \<open>
  \<^verbatim>\<open>class dimension_smaller_than_zero : public std::logic_error\<close>, with the message it
  is thrown with.
\<close>

datatype error = dimension_smaller_than_zero string

text \<open>
  The classes derived from \<^verbatim>\<open>shape\<close>, each with its one member: \<^verbatim>\<open>r_\<close> of
  \<^verbatim>\<open>circle\<close>, \<^verbatim>\<open>side_\<close> of \<^verbatim>\<open>square\<close> and of \<^verbatim>\<open>equilateral_triangle\<close>.
\<close>

datatype shape =
  Circle (circle_r: double)
| Square (square_side: double)
| Equilateral_triangle (triangle_side: double)

text \<open>
  The constructors: the member is initialised, then a dimension below zero throws, and no
  object exists.
\<close>

definition circle :: "double \<Rightarrow> error + shape" where
  "circle r =
     (if flt r (int_to_double 0)
      then Inl (dimension_smaller_than_zero ''A circle must have a radius of at least 0.'')
      else Inr (Circle r))"

definition square :: "double \<Rightarrow> error + shape" where
  "square side =
     (if flt side (int_to_double 0)
      then Inl (dimension_smaller_than_zero ''A square must have a length of at least 0.'')
      else Inr (Square side))"

definition equilateral_triangle :: "double \<Rightarrow> error + shape" where
  "equilateral_triangle side =
     (if flt side (int_to_double 0)
      then Inl (dimension_smaller_than_zero
                  ''An equilateral_triangle must have a length of at least 0.'')
      else Inr (Equilateral_triangle side))"

text \<open>
  The virtual \<^verbatim>\<open>get_circumference()\<close>, one equation for each override. The member
  function is not \<^verbatim>\<open>const\<close>, so it returns the object as the call leaves it beside the
  value. The products are \<^verbatim>\<open>long double\<close> products, \<^verbatim>\<open>8.L * std::atan(1) * r_\<close> from
  the left, and the \<^verbatim>\<open>return\<close> converts to \<^verbatim>\<open>double\<close>.
\<close>

fun get_circumference :: "platform \<Rightarrow> shape \<Rightarrow> double \<times> shape" where
  "get_circumference P (Circle r) =
     (to_double P
        (ldbl_mul P
           (ldbl_mul P (Finite 8) (to_long_double (std_atan P (int_to_double 1))))
           (to_long_double r)),
      Circle r)"
| "get_circumference P (Square side) =
     (to_double P (ldbl_mul P (Finite 4) (to_long_double side)), Square side)"
| "get_circumference P (Equilateral_triangle side) =
     (to_double P (ldbl_mul P (Finite 3) (to_long_double side)), Equilateral_triangle side)"

section \<open>Scenes\<close>

text \<open>
  A \<^verbatim>\<open>std::shared_ptr<shape>\<close> is an address; the objects live in a heap. A null pointer
  is an address at which the heap has no object.
\<close>

type_synonym addr = nat
type_synonym heap = "addr \<rightharpoonup> shape"

text \<open>The class \<^verbatim>\<open>scene\<close>; \<open>shapes\<close> is its member \<^verbatim>\<open>shapes_\<close>.\<close>

record scene =
  shapes :: "addr list"

text \<open>\<^verbatim>\<open>add_shape\<close>: \<^verbatim>\<open>push_back\<close> of the pointer, cast to the base class.\<close>

definition add_shape :: "scene \<Rightarrow> addr \<Rightarrow> scene" where
  "add_shape sc s = sc\<lparr>shapes := shapes sc @ [s]\<rparr>"

text \<open>
  \<^verbatim>\<open>std::accumulate\<close> over \<^verbatim>\<open>shapes_\<close> with the lambda of the source. The accumulator
  has the type of the initial value \<^verbatim>\<open>0.0L\<close>, \<^verbatim>\<open>long double\<close>. The lambda takes it as a
  \<^verbatim>\<open>double\<close>, calls the pointed-to object's \<^verbatim>\<open>get_circumference()\<close>, and returns the
  \<^verbatim>\<open>double\<close> sum, which is stored back into the accumulator. Calling through a null
  pointer is undefined behaviour: \<open>None\<close>.
\<close>

fun accumulate :: "platform \<Rightarrow> addr list \<Rightarrow> long_double \<Rightarrow> heap \<Rightarrow> (long_double \<times> heap) option" where
  "accumulate P [] init h = Some (init, h)"
| "accumulate P (b # bs) init h =
     (case h b of
        None \<Rightarrow> None
      | Some obj \<Rightarrow>
          (case get_circumference P obj of
             (c, obj') \<Rightarrow>
               accumulate P bs
                 (to_long_double (dbl_add P (to_double P init) c))
                 (h(b \<mapsto> obj'))))"

text \<open>
  \<^verbatim>\<open>scene::get_circumference()\<close>: the accumulated value, converted to \<^verbatim>\<open>double\<close> by the
  \<^verbatim>\<open>return\<close>, with the scene and the heap as the call leaves them.
\<close>

definition scene_get_circumference ::
  "platform \<Rightarrow> scene \<Rightarrow> heap \<Rightarrow> (double \<times> scene \<times> heap) option" where
  "scene_get_circumference P sc h =
     (case accumulate P (shapes sc) (Finite 0) h of
        None \<Rightarrow> None
      | Some (acc, h') \<Rightarrow> Some (to_double P acc, sc, h'))"

section \<open>Conforming platforms\<close>

text \<open>
  Two facts about the rounding into \<^verbatim>\<open>double\<close> that hold on every implementation: zero
  is a \<^verbatim>\<open>double\<close>, and a value that is already a \<^verbatim>\<open>double\<close> (it came out of a
  rounding into \<^verbatim>\<open>double\<close>) converts to itself.
\<close>

definition double_conversion_exact :: "platform \<Rightarrow> bool" where
  "double_conversion_exact P \<longleftrightarrow>
     round_double P 0 = Finite 0 \<and>
     (\<forall>x v. round_double P x = Finite v \<longrightarrow> round_double P v = Finite v)"

text \<open>
  An instance, to run the definitions on: both formats hold every real number and the
  arctangent is exact.
\<close>

definition exact_platform :: platform where
  "exact_platform =
     \<lparr>round_double = Finite, round_long_double = Finite,
      std_atan = (\<lambda>d. case d of
                        Finite v \<Rightarrow> Finite (arctan v)
                      | Infinity s \<Rightarrow> Finite (if s then - pi / 2 else pi / 2)
                      | NaN \<Rightarrow> NaN)\<rparr>"

section \<open>Rounding accuracy\<close>

text \<open>
  A rounding is accurate to \<open>u\<close> on the range from \<open>lo\<close> to \<open>hi\<close> when it keeps zero and
  takes every number of that magnitude to a finite value within the relative error \<open>u\<close>.
  This is what a binary format gives on its normal range: no overflow, no underflow.
\<close>

definition rounds_within :: "real \<Rightarrow> real \<Rightarrow> real \<Rightarrow> (real \<Rightarrow> fp) \<Rightarrow> bool" where
  "rounds_within u lo hi rnd \<longleftrightarrow>
     (\<forall>x. x = 0 \<or> (lo \<le> \<bar>x\<bar> \<and> \<bar>x\<bar> \<le> hi) \<longrightarrow>
          (\<exists>y. rnd x = Finite y \<and> \<bar>y - x\<bar> \<le> u * \<bar>x\<bar>))"

text \<open>
  A platform is accurate when both of its roundings are, and \<^verbatim>\<open>std::atan(1)\<close> is within
  \<open>u\<close> of \<open>\<pi>/4\<close>.
\<close>

definition accurate_platform :: "real \<Rightarrow> real \<Rightarrow> real \<Rightarrow> platform \<Rightarrow> bool" where
  "accurate_platform u lo hi P \<longleftrightarrow>
     rounds_within u lo hi (round_double P) \<and>
     rounds_within u lo hi (round_long_double P) \<and>
     (\<exists>a. std_atan P (Finite 1) = Finite a \<and> \<bar>a - pi / 4\<bar> \<le> u * (pi / 4))"

text \<open>A \<^verbatim>\<open>double\<close> is within the relative tolerance of a real number: it is finite and close.\<close>

definition within_relative :: "real \<Rightarrow> fp \<Rightarrow> real \<Rightarrow> bool" where
  "within_relative tol d v = (case d of Finite y \<Rightarrow> \<bar>y - v\<bar> \<le> tol * \<bar>v\<bar> | _ \<Rightarrow> False)"

text \<open>The number a finite \<^verbatim>\<open>double\<close> stands for.\<close>

fun finite_value :: "fp \<Rightarrow> real" where
  "finite_value (Finite v) = v"
| "finite_value _ = 0"

section \<open>The formats of x86-64\<close>

text \<open>
  Rounding to the nearest integer, a tie to the even one.
\<close>

definition round_half_even :: "real \<Rightarrow> int" where
  "round_half_even m =
     (let f = \<lfloor>m\<rfloor> in
      if m - of_int f < 1 / 2 then f
      else if 1 / 2 < m - of_int f then f + 1
      else if even f then f else f + 1)"

text \<open>
  IEEE 754 rounding to nearest, ties to even, into the binary format of precision \<open>p\<close>
  whose finite values are below \<open>2 ^ emax\<close>: the result is a multiple of the unit in the
  last place of \<open>x\<close>, which is \<open>2 ^ (\<lfloor>log\<^sub>2 |x|\<rfloor> + 1 - p)\<close> and at least the smallest
  subnormal \<open>2 ^ (3 - emax - p)\<close>; a result of magnitude \<open>2 ^ emax\<close> or more is an infinity.
\<close>

definition ieee_round :: "nat \<Rightarrow> int \<Rightarrow> real \<Rightarrow> fp" where
  "ieee_round p emax x =
     (if x = 0 then Finite 0
      else
        let e = max (3 - emax - int p) (\<lfloor>log 2 \<bar>x\<bar>\<rfloor> + 1 - int p);
            y = of_int (round_half_even (x / 2 powi e)) * 2 powi e
        in if 2 powi emax \<le> \<bar>y\<bar> then Infinity (x < 0) else Finite y)"

text \<open>
  \<^verbatim>\<open>double\<close> is binary64 (53 bits, below \<open>2 ^ 1024\<close>). On x86-64 with the System V ABI
  \<^verbatim>\<open>long double\<close> is the x87 extended format (64 bits, below \<open>2 ^ 16384\<close>).
  \<^verbatim>\<open>std::atan\<close> is taken as correctly rounded, which it is at the program's argument 1.
\<close>

definition binary64 :: "real \<Rightarrow> fp" where
  "binary64 = ieee_round 53 1024"

definition x87_extended :: "real \<Rightarrow> fp" where
  "x87_extended = ieee_round 64 16384"

definition x86_64 :: platform where
  "x86_64 =
     \<lparr>round_double = binary64, round_long_double = x87_extended,
      std_atan = (\<lambda>d. case d of
                        Finite v \<Rightarrow> binary64 (arctan v)
                      | Infinity s \<Rightarrow> binary64 (if s then - pi / 2 else pi / 2)
                      | NaN \<Rightarrow> NaN)\<rparr>"

text \<open>\<^verbatim>\<open>DBL_MAX\<close>, the largest finite \<^verbatim>\<open>double\<close>, and the distance to the one below it.\<close>

definition DBL_MAX :: real where
  "DBL_MAX = (2 ^ 53 - 1) * 2 ^ 971"

definition DBL_MAX_ulp :: real where
  "DBL_MAX_ulp = 2 ^ 971"

text \<open>
  Three squares: one of circumference \<^verbatim>\<open>DBL_MAX\<close>, two of a quarter of its unit in the
  last place. And a square and a triangle of side 2.
\<close>

definition boundary_heap :: heap where
  "boundary_heap =
     [10 \<mapsto> Square (Finite (DBL_MAX / 4)),
      20 \<mapsto> Square (Finite (DBL_MAX_ulp / 16)),
      30 \<mapsto> Square (Finite (DBL_MAX_ulp / 16))]"

definition polygon_heap :: heap where
  "polygon_heap = [10 \<mapsto> Square (Finite 2), 20 \<mapsto> Equilateral_triangle (Finite 2)]"

section \<open>Properties of the arithmetic\<close>

lemma fge_not_flt: "fge d e \<Longrightarrow> \<not> flt d e"
  by (cases d; cases e) auto

lemma fmul_NaN_right: "fmul rnd x NaN = NaN"
  by (cases x) auto

lemma to_double_round:
  "double_conversion_exact P \<Longrightarrow> to_double P (round_double P x) = round_double P x"
  by (cases "round_double P x") (auto simp: to_double_def double_conversion_exact_def)

lemma to_double_dbl_add:
  "double_conversion_exact P \<Longrightarrow> to_double P (dbl_add P a b) = dbl_add P a b"
  by (cases a; cases b) (auto simp: dbl_add_def to_double_round, auto simp: to_double_def)

lemma to_double_foldl:
  assumes "double_conversion_exact P" and "to_double P init = init"
  shows "to_double P (foldl (\<lambda>a b. dbl_add P a (f b)) init bs) =
           foldl (\<lambda>a b. dbl_add P a (f b)) init bs"
  using assms(2) by (induction bs arbitrary: init) (auto simp: to_double_dbl_add assms(1))

section \<open>Properties of the queries\<close>

lemma get_circumference_same_object: "snd (get_circumference P s) = s"
  by (cases s) auto

text \<open>The loop leaves the heap as it found it.\<close>

lemma accumulate_heap: "accumulate P bs init h = Some (acc, h') \<Longrightarrow> h' = h"
proof (induction bs arbitrary: init h)
  case Nil
  then show ?case by simp
next
  case (Cons b bs)
  from Cons.prems obtain obj where obj: "h b = Some obj"
    by (cases "h b") auto
  have same: "h(b \<mapsto> snd (get_circumference P obj)) = h"
    using obj by (simp add: get_circumference_same_object map_upd_triv)
  from Cons.prems obj same
  have "accumulate P bs
          (to_long_double (dbl_add P (to_double P init) (fst (get_circumference P obj)))) h
        = Some (acc, h')"
    by (simp add: case_prod_beta)
  then show ?case by (rule Cons.IH)
qed

text \<open>
  Over pointers that all point to objects, and from an initial value that is a
  \<^verbatim>\<open>double\<close>, the loop is the left fold in \<^verbatim>\<open>double\<close>: the conversions of the
  accumulator to \<^verbatim>\<open>long double\<close> and back change nothing.
\<close>

lemma accumulate_fold:
  assumes "double_conversion_exact P" and "set bs \<subseteq> dom h" and "to_double P init = init"
  shows "accumulate P bs init h =
           Some (foldl (\<lambda>a b. dbl_add P a (fst (get_circumference P (the (h b))))) init bs, h)"
  using assms(2,3)
proof (induction bs arbitrary: init)
  case Nil
  then show ?case by simp
next
  case (Cons b bs)
  from Cons.prems obtain obj where obj: "h b = Some obj"
    by auto
  have same: "h(b \<mapsto> snd (get_circumference P obj)) = h"
    using obj by (simp add: get_circumference_same_object map_upd_triv)
  let ?next = "dbl_add P init (fst (get_circumference P obj))"
  have step: "accumulate P (b # bs) init h = accumulate P bs ?next h"
    using obj same Cons.prems(2) by (simp add: case_prod_beta to_long_double_def)
  have "accumulate P bs ?next h =
          Some (foldl (\<lambda>a b. dbl_add P a (fst (get_circumference P (the (h b))))) ?next bs, h)"
    using Cons.prems(1) assms(1) by (intro Cons.IH) (auto simp: to_double_dbl_add)
  with step obj show ?case by simp
qed

lemma accumulate_append:
  "accumulate P (xs @ ys) init h =
     (case accumulate P xs init h of None \<Rightarrow> None | Some (a, h') \<Rightarrow> accumulate P ys a h')"
  by (induction xs arbitrary: init h) (auto split: option.splits prod.splits)

text \<open>A scene that has a sum has one after \<^verbatim>\<open>add_shape\<close>: the old sum plus the new shape.\<close>

lemma scene_get_circumference_add_shape:
  assumes exact: "double_conversion_exact P"
    and obj: "h s = Some obj"
    and run: "scene_get_circumference P sc h = Some (t, sc', h')"
  shows "scene_get_circumference P (add_shape sc s) h =
           Some (dbl_add P t (fst (get_circumference P obj)), add_shape sc s, h)"
proof -
  from run obtain acc where acc: "accumulate P (shapes sc) (Finite 0) h = Some (acc, h')"
    and t: "t = to_double P acc"
    by (auto simp: scene_get_circumference_def split: option.splits)
  from acc have h': "h' = h"
    by (rule accumulate_heap)
  have same: "h(s \<mapsto> snd (get_circumference P obj)) = h"
    using obj by (simp add: get_circumference_same_object map_upd_triv)
  have "accumulate P (shapes sc @ [s]) (Finite 0) h =
          Some (to_long_double (dbl_add P t (fst (get_circumference P obj))), h)"
    using acc h' obj same t by (simp add: accumulate_append case_prod_beta)
  then show ?thesis
    by (simp add: scene_get_circumference_def add_shape_def to_long_double_def
        to_double_dbl_add [OF exact])
qed

section \<open>Properties of rounding to nearest\<close>

lemma round_half_even_cases:
  "round_half_even m = \<lfloor>m\<rfloor> \<or> round_half_even m = \<lfloor>m\<rfloor> + 1"
  by (simp add: round_half_even_def Let_def)

lemma round_half_even_error: "\<bar>of_int (round_half_even m) - m\<bar> \<le> 1 / 2"
proof -
  have "of_int \<lfloor>m\<rfloor> \<le> m" and "m < of_int \<lfloor>m\<rfloor> + 1"
    by linarith+
  then show ?thesis
    by (auto simp: round_half_even_def Let_def)
qed

lemma round_half_even_of_int [simp]: "round_half_even (of_int n) = n"
  by (simp add: round_half_even_def)

lemma round_half_even_ge:
  assumes "of_int n \<le> m"
  shows "n \<le> round_half_even m"
proof -
  from assms have "n \<le> \<lfloor>m\<rfloor>" by (simp add: le_floor_iff)
  then show ?thesis
    using round_half_even_cases [of m] by auto
qed

lemma round_half_even_le:
  assumes "m \<le> of_int n"
  shows "round_half_even m \<le> n"
proof (cases "m = of_int n")
  case True
  then show ?thesis by simp
next
  case False
  with assms have "m < of_int n" by simp
  then have "\<lfloor>m\<rfloor> < n" by (simp add: floor_less_iff)
  then show ?thesis
    using round_half_even_cases [of m] by auto
qed

lemma round_half_even_quarter: "round_half_even (of_int n + 1 / 4) = n"
proof -
  have "\<lfloor>of_int n + (1 / 4 :: real)\<rfloor> = n"
    by (rule floor_unique) simp_all
  then show ?thesis
    by (simp add: round_half_even_def)
qed

lemma round_half_even_tie_odd: "odd n \<Longrightarrow> round_half_even (of_int n + 1 / 2) = n + 1"
proof -
  assume "odd n"
  have "\<lfloor>of_int n + (1 / 2 :: real)\<rfloor> = n"
    by (rule floor_unique) simp_all
  with \<open>odd n\<close> show ?thesis
    by (simp add: round_half_even_def)
qed

lemma pow2_int: "0 \<le> k \<Longrightarrow> (2::real) powi k = of_int (2 ^ nat k)"
  by (simp add: power_int_def)

lemma pow2_less_iff: "(2::real) powi a < 2 powi b \<longleftrightarrow> a < b"
proof
  assume "(2::real) powi a < 2 powi b"
  show "a < b"
  proof (rule ccontr)
    assume "\<not> a < b"
    then have "(2::real) powi b \<le> 2 powi a"
      by (intro power_int_increasing) simp_all
    with \<open>(2::real) powi a < 2 powi b\<close> show False by simp
  qed
next
  assume "a < b"
  then show "(2::real) powi a < 2 powi b"
    by (intro power_int_strict_increasing) simp_all
qed

lemma pow2_le_iff: "(2::real) powi a \<le> 2 powi b \<longleftrightarrow> a \<le> b"
  using pow2_less_iff [of b a] by (simp add: not_less [symmetric])

lemma floor_log2_eq:
  assumes "2 powi j \<le> \<bar>x\<bar>" and "\<bar>x\<bar> < 2 powi (j + 1)"
  shows "\<lfloor>log 2 \<bar>x\<bar>\<rfloor> = j"
proof -
  have pos: "0 < \<bar>x\<bar>"
    using assms(1) by (smt (verit) zero_less_power_int)
  have "(2::real) powr (of_int j) = 2 powi j" and "(2::real) powr (of_int (j + 1)) = 2 powi (j + 1)"
    by (rule powr_real_of_int'; simp)+
  with assms have "2 powr (of_int j) \<le> \<bar>x\<bar> \<and> \<bar>x\<bar> < 2 powr (of_int (j + 1))"
    by simp
  then show ?thesis
    using floor_log_eq_powr_iff [of "\<bar>x\<bar>" 2 j] pos by simp
qed

lemma floor_log2_bounds:
  assumes "x \<noteq> 0"
  shows "2 powi \<lfloor>log 2 \<bar>x\<bar>\<rfloor> \<le> \<bar>x\<bar>" and "\<bar>x\<bar> < 2 powi (\<lfloor>log 2 \<bar>x\<bar>\<rfloor> + 1)"
proof -
  define j where "j = \<lfloor>log 2 \<bar>x\<bar>\<rfloor>"
  have "2 powr (of_int j) \<le> \<bar>x\<bar> \<and> \<bar>x\<bar> < 2 powr (of_int (j + 1))"
    using floor_log_eq_powr_iff [of "\<bar>x\<bar>" 2 j] assms by (simp add: j_def)
  moreover have "(2::real) powr (of_int j) = 2 powi j"
    and "(2::real) powr (of_int (j + 1)) = 2 powi (j + 1)"
    by (rule powr_real_of_int'; simp)+
  ultimately show "2 powi \<lfloor>log 2 \<bar>x\<bar>\<rfloor> \<le> \<bar>x\<bar>" and "\<bar>x\<bar> < 2 powi (\<lfloor>log 2 \<bar>x\<bar>\<rfloor> + 1)"
    by (simp_all add: j_def)
qed

lemma ieee_round_eval:
  assumes "2 powi j \<le> \<bar>x\<bar>" and "\<bar>x\<bar> < 2 powi (j + 1)"
    and "e = max (3 - emax - int p) (j + 1 - int p)"
    and "y = of_int (round_half_even (x / 2 powi e)) * 2 powi e"
  shows "ieee_round p emax x = (if 2 powi emax \<le> \<bar>y\<bar> then Infinity (x < 0) else Finite y)"
proof -
  have "x \<noteq> 0"
    using assms(1) by (smt (verit) zero_less_power_int)
  then show ?thesis
    by (simp add: ieee_round_def floor_log2_eq [OF assms(1,2)] assms(3,4) Let_def)
qed

text \<open>On the normal range the relative error is at most \<open>2 ^ - p\<close>, and nothing overflows.\<close>

lemma ieee_round_accurate:
  assumes p: "0 < p"
    and lo: "2 powi (2 - emax) \<le> \<bar>x\<bar>"
    and hi: "\<bar>x\<bar> \<le> 2 powi (emax - 1)"
  shows "\<exists>y. ieee_round p emax x = Finite y \<and> \<bar>y - x\<bar> \<le> \<bar>x\<bar> / 2 ^ p"
proof -
  have xpos: "0 < \<bar>x\<bar>"
    using lo by (smt (verit) zero_less_power_int)
  define j where "j = \<lfloor>log 2 \<bar>x\<bar>\<rfloor>"
  have jl: "2 powi j \<le> \<bar>x\<bar>" and ju: "\<bar>x\<bar> < 2 powi (j + 1)"
  proof -
    have "2 powr (of_int j) \<le> \<bar>x\<bar> \<and> \<bar>x\<bar> < 2 powr (of_int (j + 1))"
      using floor_log_eq_powr_iff [of "\<bar>x\<bar>" 2 j] xpos by (simp add: j_def)
    moreover have "(2::real) powr (of_int j) = 2 powi j"
      and "(2::real) powr (of_int (j + 1)) = 2 powi (j + 1)"
      by (rule powr_real_of_int'; simp)+
    ultimately show "2 powi j \<le> \<bar>x\<bar>" and "\<bar>x\<bar> < 2 powi (j + 1)"
      by simp_all
  qed
  have "(2::real) powi (2 - emax) < 2 powi (j + 1)"
    using lo ju by linarith
  then have j_lo: "2 - emax \<le> j"
    by (simp add: pow2_less_iff)
  have "(2::real) powi j \<le> 2 powi (emax - 1)"
    using jl hi by linarith
  then have j_hi: "j \<le> emax - 1"
    by (simp add: pow2_le_iff)
  define e where "e = j + 1 - int p"
  have e_max: "e = max (3 - emax - int p) (j + 1 - int p)"
    using j_lo by (simp add: e_def)
  define m :: real where "m = x / 2 powi e"
  define y :: real where "y = of_int (round_half_even m) * 2 powi e"
  have eval: "ieee_round p emax x = (if 2 powi emax \<le> \<bar>y\<bar> then Infinity (x < 0) else Finite y)"
    using ieee_round_eval [OF jl ju e_max] by (simp add: y_def m_def)
  have x_eq: "x = m * 2 powi e"
    by (simp add: m_def)
  have err: "\<bar>y - x\<bar> \<le> 2 powi e / 2"
  proof -
    have "y - x = (of_int (round_half_even m) - m) * 2 powi e"
      by (simp add: y_def x_eq algebra_simps)
    then have "\<bar>y - x\<bar> = \<bar>of_int (round_half_even m) - m\<bar> * 2 powi e"
      by (simp add: abs_mult)
    also have "\<dots> \<le> (1 / 2) * 2 powi e"
      by (rule mult_right_mono [OF round_half_even_error]) simp
    finally show ?thesis by simp
  qed
  have "(2::real) powi e * 2 ^ p = 2 powi j * 2"
  proof -
    have "(2::real) powi e * 2 powi (int p) = 2 powi (e + int p)"
      by (simp add: power_int_add)
    also have "\<dots> = 2 powi (j + 1)"
      by (simp add: e_def)
    also have "\<dots> = 2 powi j * 2"
      by (simp add: power_int_add)
    finally show ?thesis by simp
  qed
  then have half_ulp: "(2::real) powi e / 2 = 2 powi j / 2 ^ p"
    by (simp add: field_simps)
  have rel: "\<bar>y - x\<bar> \<le> \<bar>x\<bar> / 2 ^ p"
  proof -
    have "2 powi j / 2 ^ p \<le> \<bar>x\<bar> / (2 ^ p :: real)"
      using jl by (simp add: divide_right_mono)
    with err half_ulp show ?thesis by linarith
  qed
  have fin: "\<bar>y\<bar> < 2 powi emax"
  proof -
    define k where "k = emax - 1 - e"
    have k0: "0 \<le> k"
      using j_hi p by (simp add: k_def e_def)
    have B: "(2::real) powi k = of_int (2 ^ nat k)"
      using k0 by (rule pow2_int)
    have split: "(2::real) powi (emax - 1) = 2 powi k * 2 powi e"
      by (simp add: k_def flip: power_int_add)
    have "\<bar>m\<bar> * 2 powi e = \<bar>x\<bar>"
      by (simp add: x_eq abs_mult)
    with hi split have "\<bar>m\<bar> * 2 powi e \<le> 2 powi k * 2 powi e"
      by simp
    then have mB: "\<bar>m\<bar> \<le> 2 powi k"
      by (simp add: mult_le_cancel_right)
    have up: "round_half_even m \<le> 2 ^ nat k"
      by (rule round_half_even_le) (use mB B in linarith)
    have dn: "- (2 ^ nat k) \<le> round_half_even m"
      by (rule round_half_even_ge) (use mB B in \<open>simp; linarith\<close>)
    from up dn have "\<bar>round_half_even m\<bar> \<le> 2 ^ nat k"
      by linarith
    then have "\<bar>real_of_int (round_half_even m)\<bar> \<le> 2 powi k"
      unfolding B by (metis of_int_abs of_int_le_iff)
    then have "\<bar>y\<bar> \<le> 2 powi k * 2 powi e"
      by (simp add: y_def abs_mult mult_right_mono)
    also have "\<dots> = 2 powi (emax - 1)"
      by (simp add: split)
    also have "\<dots> < 2 powi emax"
      by (simp add: pow2_less_iff)
    finally show ?thesis .
  qed
  from eval fin rel show ?thesis
    by auto
qed

text \<open>From \<open>2 ^ emax\<close> on, the result is plus infinity.\<close>

lemma ieee_round_overflow:
  assumes p: "0 < p" and emax: "0 < emax" and big: "2 powi emax \<le> x"
  shows "ieee_round p emax x = Infinity False"
proof -
  have xpos: "0 < x"
    using big by (smt (verit) zero_less_power_int)
  then have ax: "\<bar>x\<bar> = x" by simp
  define j where "j = \<lfloor>log 2 \<bar>x\<bar>\<rfloor>"
  have jl: "2 powi j \<le> \<bar>x\<bar>" and ju: "\<bar>x\<bar> < 2 powi (j + 1)"
  proof -
    have "2 powr (of_int j) \<le> \<bar>x\<bar> \<and> \<bar>x\<bar> < 2 powr (of_int (j + 1))"
      using floor_log_eq_powr_iff [of "\<bar>x\<bar>" 2 j] xpos by (simp add: j_def)
    moreover have "(2::real) powr (of_int j) = 2 powi j"
      and "(2::real) powr (of_int (j + 1)) = 2 powi (j + 1)"
      by (rule powr_real_of_int'; simp)+
    ultimately show "2 powi j \<le> \<bar>x\<bar>" and "\<bar>x\<bar> < 2 powi (j + 1)"
      by simp_all
  qed
  have "(2::real) powi emax < 2 powi (j + 1)"
    using big ju ax by linarith
  then have j_ge: "emax \<le> j"
    by (simp add: pow2_less_iff)
  define e where "e = max (3 - emax - int p) (j + 1 - int p)"
  define m :: real where "m = x / 2 powi e"
  define y :: real where "y = of_int (round_half_even m) * 2 powi e"
  have eval: "ieee_round p emax x = (if 2 powi emax \<le> \<bar>y\<bar> then Infinity (x < 0) else Finite y)"
    using ieee_round_eval [OF jl ju e_def] by (simp add: y_def m_def)
  define k where "k = j - e"
  have k0: "0 \<le> k"
    using j_ge p emax by (simp add: k_def e_def)
  have B: "(2::real) powi k = of_int (2 ^ nat k)"
    using k0 by (rule pow2_int)
  have split: "(2::real) powi j = 2 powi k * 2 powi e"
    by (simp add: k_def flip: power_int_add)
  have "m * 2 powi e = x"
    by (simp add: m_def)
  with jl ax split have "2 powi k * 2 powi e \<le> m * 2 powi e"
    by simp
  then have "2 powi k \<le> m"
    by (simp add: mult_le_cancel_right)
  then have "2 ^ nat k \<le> round_half_even m"
    by (intro round_half_even_ge) (simp add: B)
  then have "2 powi k \<le> real_of_int (round_half_even m)"
    unfolding B by (simp only: of_int_le_iff)
  then have "2 powi k * 2 powi e \<le> y"
    by (simp add: y_def mult_right_mono)
  with split have "2 powi j \<le> y"
    by simp
  moreover have "(2::real) powi emax \<le> 2 powi j"
    using j_ge by (simp add: pow2_le_iff)
  ultimately have "2 powi emax \<le> \<bar>y\<bar>"
    by linarith
  with eval xpos show ?thesis
    by simp
qed

text \<open>A number with a \<open>p\<close>-bit significand and an exponent of the format is kept.\<close>

lemma ieee_round_exact:
  assumes p: "0 < p"
    and n_lo: "2 ^ (p - 1) \<le> \<bar>n\<bar>" and n_hi: "\<bar>n\<bar> < 2 ^ p"
    and q_lo: "3 - emax - int p \<le> q" and q_hi: "q + int p \<le> emax"
  shows "ieee_round p emax (of_int n * 2 powi q) = Finite (of_int n * 2 powi q)"
proof -
  define x :: real where "x = of_int n * 2 powi q"
  define j where "j = q + int p - 1"
  have ax: "\<bar>x\<bar> = of_int \<bar>n\<bar> * 2 powi q"
    by (simp add: x_def abs_mult)
  have "j = int (p - 1) + q"
    using p by (simp add: j_def)
  moreover have "(2::real) powi (int (p - 1) + q) = 2 powi (int (p - 1)) * 2 powi q"
    by (rule power_int_add) simp
  ultimately have "(2::real) powi j = 2 powi (int (p - 1)) * 2 powi q"
    by (simp only:)
  also have "\<dots> = of_int (2 ^ (p - 1)) * 2 powi q"
    by simp
  also have "\<dots> \<le> of_int \<bar>n\<bar> * 2 powi q"
    using n_lo by (intro mult_right_mono) (simp_all only: of_int_le_iff zero_le_power_int zero_le_numeral)
  finally have jl: "2 powi j \<le> \<bar>x\<bar>"
    by (simp only: ax)
  have "of_int \<bar>n\<bar> * 2 powi q < of_int (2 ^ p) * (2::real) powi q"
    using n_hi by (intro mult_strict_right_mono) (simp_all only: of_int_less_iff zero_less_power_int zero_less_numeral)
  also have "\<dots> = 2 powi (int p) * 2 powi q"
    by simp
  also have "\<dots> = 2 powi (int p + q)"
    by (rule power_int_add [symmetric]) simp
  also have "\<dots> = 2 powi (j + 1)"
    by (simp add: j_def add.commute)
  finally have ju: "\<bar>x\<bar> < 2 powi (j + 1)"
    by (simp only: ax)
  have e: "q = max (3 - emax - int p) (j + 1 - int p)"
    using q_lo by (simp add: j_def)
  have y: "x = of_int (round_half_even (x / 2 powi q)) * 2 powi q"
    by (simp add: x_def)
  have "\<bar>x\<bar> < 2 powi emax"
  proof -
    have "(2::real) powi (j + 1) \<le> 2 powi emax"
      using q_hi by (simp add: pow2_le_iff j_def)
    with ju show ?thesis by linarith
  qed
  then show ?thesis
    using ieee_round_eval [OF jl ju e y] by (simp add: x_def)
qed

text \<open>A value of the format is kept: rounding twice is rounding once.\<close>

lemma ieee_round_idem:
  assumes p: "0 < p" and r: "ieee_round p emax x = Finite y"
  shows "ieee_round p emax y = Finite y"
proof (cases "y = 0")
  case True
  then show ?thesis by (simp add: ieee_round_def)
next
  case y0: False
  have x0: "x \<noteq> 0"
    using r y0 by (auto simp: ieee_round_def)
  define j where "j = \<lfloor>log 2 \<bar>x\<bar>\<rfloor>"
  define e where "e = max (3 - emax - int p) (j + 1 - int p)"
  define N where "N = round_half_even (x / 2 powi e)"
  have jl: "2 powi j \<le> \<bar>x\<bar>" and ju: "\<bar>x\<bar> < 2 powi (j + 1)"
    unfolding j_def by (rule floor_log2_bounds [OF x0])+
  have "ieee_round p emax x =
          (if 2 powi emax \<le> \<bar>real_of_int N * 2 powi e\<bar> then Infinity (x < 0)
           else Finite (real_of_int N * 2 powi e))"
    unfolding N_def by (rule ieee_round_eval [OF jl ju e_def refl])
  with r have y: "y = of_int N * 2 powi e" and fin: "\<not> 2 powi emax \<le> \<bar>y\<bar>"
    by (auto split: if_splits)
  \<comment> \<open>the significand has at most \<open>p\<close> bits\<close>
  have N_bound: "\<bar>N\<bar> \<le> 2 ^ p"
  proof -
    have "(2::real) powi (j + 1) \<le> 2 powi (int p + e)"
      by (simp only: pow2_le_iff) (simp add: e_def)
    also have "\<dots> = 2 ^ p * 2 powi e"
      by (subst power_int_add) simp_all
    finally have "\<bar>x\<bar> < 2 ^ p * 2 powi e"
      using ju by linarith
    then have "\<bar>x\<bar> / 2 powi e < 2 ^ p"
      by (simp add: pos_divide_less_eq)
    moreover have "\<bar>x / 2 powi e\<bar> = \<bar>x\<bar> / 2 powi e"
      by simp
    ultimately have "\<bar>x / 2 powi e\<bar> < 2 ^ p"
      by (simp only:)
    then have "x / 2 powi e < 2 ^ p" and "- (2 ^ p) < x / 2 powi e"
      by (simp_all only: abs_less_iff minus_less_iff)
    then have up: "x / 2 powi e \<le> of_int (2 ^ p)" and dn: "of_int (- (2 ^ p)) \<le> x / 2 powi e"
      by simp_all
    have "N \<le> 2 ^ p"
      unfolding N_def by (rule round_half_even_le [OF up])
    moreover have "- (2 ^ p) \<le> N"
      unfolding N_def by (rule round_half_even_ge [OF dn])
    ultimately show ?thesis by linarith
  qed
  \<comment> \<open>rounding \<open>y\<close> again\<close>
  define j' where "j' = \<lfloor>log 2 \<bar>y\<bar>\<rfloor>"
  define e' where "e' = max (3 - emax - int p) (j' + 1 - int p)"
  have jl': "2 powi j' \<le> \<bar>y\<bar>" and ju': "\<bar>y\<bar> < 2 powi (j' + 1)"
    unfolding j'_def by (rule floor_log2_bounds [OF y0])+
  have e_ge: "3 - emax - int p \<le> e"
    by (simp add: e_def)
  have ay: "\<bar>y\<bar> = of_int \<bar>N\<bar> * 2 powi e"
    by (simp add: y abs_mult)
  have "\<exists>n. y / 2 powi e' = of_int n"
  proof (cases "e' \<le> e")
    case True
    then have "(2::real) powi e = of_int (2 ^ nat (e - e')) * 2 powi e'"
      using pow2_int [of "e - e'"] power_int_add [of "2::real" "e - e'" e'] by simp
    then have "y / 2 powi e' = of_int (N * 2 ^ nat (e - e'))"
      by (simp add: y)
    then show ?thesis ..
  next
    case False
    then have e'_eq: "e' = j' + 1 - int p" and gt: "e < j' + 1 - int p"
      using e_ge by (simp_all add: e'_def)
    have "(2::real) powi (int p + e) \<le> 2 powi j'"
      by (simp only: pow2_le_iff) (use gt in simp)
    moreover have "(2::real) powi (int p + e) = 2 ^ p * 2 powi e"
      by (subst power_int_add) simp_all
    ultimately have "2 ^ p * 2 powi e \<le> of_int \<bar>N\<bar> * (2::real) powi e"
      using jl' ay by linarith
    then have "(2::real) ^ p \<le> of_int \<bar>N\<bar>"
      by (simp add: mult_le_cancel_right)
    then have "2 ^ p \<le> \<bar>N\<bar>"
      by (metis of_int_le_iff of_int_numeral of_int_power)
    with N_bound have N_eq: "\<bar>N\<bar> = 2 ^ p"
      by linarith
    have ay': "\<bar>y\<bar> = 2 powi (int p + e)"
      unfolding ay N_eq by (subst power_int_add) simp_all
    with jl' have "j' \<le> int p + e"
      by (simp add: pow2_le_iff)
    with gt e'_eq have e'_is: "e' = e + 1"
      by linarith
    have "(2::real) powi e' = 2 * 2 powi e"
      unfolding e'_is by (subst power_int_add) simp_all
    then have "y / 2 powi e' = of_int N / 2"
      by (simp add: y)
    moreover have "even N"
    proof -
      have "even (\<bar>N\<bar>)"
        unfolding N_eq using p by simp
      then show ?thesis by simp
    qed
    ultimately have "y / 2 powi e' = of_int (N div 2)"
      by (simp add: real_of_int_div)
    then show ?thesis ..
  qed
  then obtain n where n: "y / 2 powi e' = of_int n" ..
  have "y = of_int (round_half_even (y / 2 powi e')) * 2 powi e'"
    unfolding n round_half_even_of_int by (simp flip: n)
  from ieee_round_eval [OF jl' ju' e'_def this] fin show ?thesis
    by simp
qed

section \<open>Properties of x86-64\<close>

lemma x86_64_fields:
  "round_double x86_64 = binary64" "round_long_double x86_64 = x87_extended"
  by (simp_all add: x86_64_def)

lemma binary64_0: "binary64 0 = Finite 0"
  by (simp add: binary64_def ieee_round_def)

lemma binary64_rounds_within:
  "rounds_within (1 / 2 ^ 53) (2 powi (- 1022)) (2 powi 1023) binary64"
  unfolding rounds_within_def
proof (intro allI impI)
  fix x :: real
  assume "x = 0 \<or> 2 powi (- 1022) \<le> \<bar>x\<bar> \<and> \<bar>x\<bar> \<le> 2 powi 1023"
  then show "\<exists>y. binary64 x = Finite y \<and> \<bar>y - x\<bar> \<le> 1 / 2 ^ 53 * \<bar>x\<bar>"
  proof
    assume "x = 0"
    then show ?thesis by (simp add: binary64_def ieee_round_def)
  next
    assume r: "2 powi (- 1022) \<le> \<bar>x\<bar> \<and> \<bar>x\<bar> \<le> 2 powi 1023"
    have e: "(2::int) - 1024 = - 1022" "(1024::int) - 1 = 1023"
      by simp_all
    have l: "2 powi (2 - 1024) \<le> \<bar>x\<bar>" and h: "\<bar>x\<bar> \<le> 2 powi (1024 - 1)"
      unfolding e using r by blast+
    have "\<exists>y. ieee_round 53 1024 x = Finite y \<and> \<bar>y - x\<bar> \<le> \<bar>x\<bar> / 2 ^ 53"
      by (rule ieee_round_accurate [OF _ l h]) simp
    then show ?thesis unfolding binary64_def by (simp only: times_divide_eq_left mult_1)
  qed
qed

lemma x87_rounds_within:
  "rounds_within (1 / 2 ^ 53) (2 powi (- 1022)) (2 powi 1023) x87_extended"
  unfolding rounds_within_def
proof (intro allI impI)
  fix x :: real
  assume "x = 0 \<or> 2 powi (- 1022) \<le> \<bar>x\<bar> \<and> \<bar>x\<bar> \<le> 2 powi 1023"
  then show "\<exists>y. x87_extended x = Finite y \<and> \<bar>y - x\<bar> \<le> 1 / 2 ^ 53 * \<bar>x\<bar>"
  proof
    assume "x = 0"
    then show ?thesis by (simp add: x87_extended_def ieee_round_def)
  next
    assume r: "2 powi (- 1022) \<le> \<bar>x\<bar> \<and> \<bar>x\<bar> \<le> 2 powi 1023"
    have "(2::real) powi (2 - 16384) \<le> 2 powi (- 1022)"
      and "(2::real) powi 1023 \<le> 2 powi (16384 - 1)"
      by (simp_all only: pow2_le_iff)
    with r have l: "2 powi (2 - 16384) \<le> \<bar>x\<bar>" and h: "\<bar>x\<bar> \<le> 2 powi (16384 - 1)"
      by linarith+
    have "\<exists>y. ieee_round 64 16384 x = Finite y \<and> \<bar>y - x\<bar> \<le> \<bar>x\<bar> / 2 ^ 64"
      by (rule ieee_round_accurate [OF _ l h]) simp
    then obtain y where y: "ieee_round 64 16384 x = Finite y" "\<bar>y - x\<bar> \<le> \<bar>x\<bar> / 2 ^ 64"
      by blast
    have "\<bar>x\<bar> / 2 ^ 64 \<le> \<bar>x\<bar> / 2 ^ 53"
      by (intro divide_left_mono) simp_all
    with y have "x87_extended x = Finite y \<and> \<bar>y - x\<bar> \<le> \<bar>x\<bar> / 2 ^ 53"
      unfolding x87_extended_def by (intro conjI) linarith+
    then show ?thesis by (simp only: times_divide_eq_left mult_1) blast
  qed
qed

lemma rel_error_bounds:
  fixes x y u L H :: real
  assumes "\<bar>y - x\<bar> \<le> u * \<bar>x\<bar>" and "L \<le> x" and "x \<le> H" and "0 \<le> L" and "0 \<le> u" and "u \<le> 1"
  shows "L * (1 - u) \<le> y \<and> y \<le> H * (1 + u)"
proof -
  have x0: "0 \<le> x" using assms(2,4) by linarith
  then have "x - u * x \<le> y" and "y \<le> x + u * x"
    using assms(1) by (simp_all add: abs_le_iff)
  moreover have "L * (1 - u) \<le> x * (1 - u)"
    using assms(2,6) by (intro mult_right_mono) simp_all
  moreover have "x * (1 + u) \<le> H * (1 + u)"
    using assms(3,5) by (intro mult_right_mono) simp_all
  ultimately show ?thesis
    by (simp add: algebra_simps)
qed

lemma x86_64_atan_1:
  "\<exists>a. std_atan x86_64 (Finite 1) = Finite a \<and> \<bar>a - pi / 4\<bar> \<le> 1 / 2 ^ 53 * (pi / 4)"
proof -
  have "(2::real) powi (- 1022) \<le> 2 powi (- 1)" and "(2::real) powi 0 \<le> 2 powi 1023"
    by (simp_all only: pow2_le_iff)
  moreover have "(2::real) powi (- 1) \<le> pi / 4" and "pi / 4 \<le> 2 powi 0"
    using pi_ge_two pi_less_4 by (simp_all add: power_int_minus)
  ultimately have "2 powi (- 1022) \<le> \<bar>pi / 4\<bar> \<and> \<bar>pi / 4\<bar> \<le> 2 powi 1023"
    by simp
  with binary64_rounds_within
  have "\<exists>y. binary64 (pi / 4) = Finite y \<and> \<bar>y - pi / 4\<bar> \<le> 1 / 2 ^ 53 * \<bar>pi / 4\<bar>"
    unfolding rounds_within_def by blast
  then show ?thesis
    by (simp add: x86_64_def arctan_one)
qed

lemma x86_64_accurate:
  "accurate_platform (1 / 2 ^ 53) (2 powi (- 1022)) (2 powi 1023) x86_64"
  unfolding accurate_platform_def
  using binary64_rounds_within x87_rounds_within x86_64_atan_1
  by (simp add: x86_64_def)

lemma x86_64_double_conversion_exact: "double_conversion_exact x86_64"
proof -
  have "binary64 x = Finite v \<Longrightarrow> binary64 v = Finite v" for x v
    unfolding binary64_def by (rule ieee_round_idem) simp_all
  then show ?thesis
    unfolding double_conversion_exact_def x86_64_fields using binary64_0 by blast
qed

text \<open>Values at the top of the range of \<^verbatim>\<open>double\<close>, and small integers.\<close>

lemma binary64_DBL_MAX: "binary64 DBL_MAX = Finite DBL_MAX"
proof -
  have "ieee_round 53 1024 (of_int (2 ^ 53 - 1) * 2 powi 971) = Finite (of_int (2 ^ 53 - 1) * 2 powi 971)"
    by (rule ieee_round_exact) simp_all
  then show ?thesis
    by (simp add: binary64_def DBL_MAX_def)
qed

lemma x87_DBL_MAX: "x87_extended DBL_MAX = Finite DBL_MAX"
proof -
  have "ieee_round 64 16384 (of_int ((2 ^ 53 - 1) * 2 ^ 11) * 2 powi 960)
          = Finite (of_int ((2 ^ 53 - 1) * 2 ^ 11) * 2 powi 960)"
    by (rule ieee_round_exact) simp_all
  then show ?thesis
    by (simp add: x87_extended_def DBL_MAX_def)
qed

lemma binary64_quarter_ulp: "binary64 (DBL_MAX_ulp / 4) = Finite (DBL_MAX_ulp / 4)"
proof -
  have "ieee_round 53 1024 (of_int (2 ^ 52) * 2 powi 917) = Finite (of_int (2 ^ 52) * 2 powi 917)"
    by (rule ieee_round_exact) simp_all
  then show ?thesis
    by (simp add: binary64_def DBL_MAX_ulp_def)
qed

lemma x87_quarter_ulp: "x87_extended (DBL_MAX_ulp / 4) = Finite (DBL_MAX_ulp / 4)"
proof -
  have "ieee_round 64 16384 (of_int (2 ^ 63) * 2 powi 906) = Finite (of_int (2 ^ 63) * 2 powi 906)"
    by (rule ieee_round_exact) simp_all
  then show ?thesis
    by (simp add: x87_extended_def DBL_MAX_ulp_def)
qed

lemma binary64_half_ulp: "binary64 (DBL_MAX_ulp / 2) = Finite (DBL_MAX_ulp / 2)"
proof -
  have "ieee_round 53 1024 (of_int (2 ^ 52) * 2 powi 918) = Finite (of_int (2 ^ 52) * 2 powi 918)"
    by (rule ieee_round_exact) simp_all
  then show ?thesis
    by (simp add: binary64_def DBL_MAX_ulp_def)
qed

lemma DBL_MAX_range:
  assumes "0 \<le> r" and "r < DBL_MAX_ulp"
  shows "2 powi 1023 \<le> \<bar>DBL_MAX + r\<bar>" and "\<bar>DBL_MAX + r\<bar> < 2 powi (1023 + 1)"
  using assms by (simp_all add: DBL_MAX_def DBL_MAX_ulp_def)

lemma binary64_DBL_MAX_quarter: "binary64 (DBL_MAX + DBL_MAX_ulp / 4) = Finite DBL_MAX"
proof -
  define x where "x = DBL_MAX + DBL_MAX_ulp / 4"
  have r: "2 powi 1023 \<le> \<bar>x\<bar>" "\<bar>x\<bar> < 2 powi (1023 + 1)"
    unfolding x_def by (rule DBL_MAX_range; simp add: DBL_MAX_ulp_def)+
  have e: "(971::int) = max (3 - 1024 - int 53) (1023 + 1 - int 53)"
    by simp
  have m: "x / 2 powi 971 = of_int (2 ^ 53 - 1) + 1 / 4"
    by (simp add: x_def DBL_MAX_def DBL_MAX_ulp_def)
  have y: "DBL_MAX = of_int (round_half_even (x / 2 powi 971)) * 2 powi 971"
    unfolding m round_half_even_quarter by (simp add: DBL_MAX_def)
  have "\<not> 2 powi 1024 \<le> \<bar>DBL_MAX\<bar>"
    by (simp add: DBL_MAX_def)
  with ieee_round_eval [OF r e y] show ?thesis
    by (simp add: binary64_def x_def)
qed

lemma binary64_DBL_MAX_half: "binary64 (DBL_MAX + DBL_MAX_ulp / 2) = Infinity False"
proof -
  define x where "x = DBL_MAX + DBL_MAX_ulp / 2"
  have r: "2 powi 1023 \<le> \<bar>x\<bar>" "\<bar>x\<bar> < 2 powi (1023 + 1)"
    unfolding x_def by (rule DBL_MAX_range; simp add: DBL_MAX_ulp_def)+
  have e: "(971::int) = max (3 - 1024 - int 53) (1023 + 1 - int 53)"
    by simp
  have m: "x / 2 powi 971 = of_int (2 ^ 53 - 1) + 1 / 2"
    by (simp add: x_def DBL_MAX_def DBL_MAX_ulp_def)
  have odd: "odd ((2::int) ^ 53 - 1)"
    by simp
  have y: "2 powi 1024 = of_int (round_half_even (x / 2 powi 971)) * 2 powi 971"
    unfolding m round_half_even_tie_odd [OF odd] by simp
  have "x > 0"
    by (simp add: x_def DBL_MAX_def DBL_MAX_ulp_def)
  with ieee_round_eval [OF r e y] show ?thesis
    by (simp add: binary64_def x_def)
qed

lemma big_square:
  "get_circumference x86_64 (Square (Finite (DBL_MAX / 4))) =
     (Finite DBL_MAX, Square (Finite (DBL_MAX / 4)))"
  by (simp add: ldbl_mul_def to_long_double_def to_double_def x86_64_fields
      x87_DBL_MAX binary64_DBL_MAX)

lemma small_square:
  "get_circumference x86_64 (Square (Finite (DBL_MAX_ulp / 16))) =
     (Finite (DBL_MAX_ulp / 4), Square (Finite (DBL_MAX_ulp / 16)))"
  by (simp add: ldbl_mul_def to_long_double_def to_double_def x86_64_fields
      x87_quarter_ulp binary64_quarter_ulp)

lemma binary64_8: "binary64 8 = Finite 8" and binary64_6: "binary64 6 = Finite 6"
proof -
  have "ieee_round 53 1024 (of_int (2 ^ 52) * 2 powi (- 49)) = Finite (of_int (2 ^ 52) * 2 powi (- 49))"
    by (rule ieee_round_exact) simp_all
  then show "binary64 8 = Finite 8"
    by (simp add: binary64_def power_int_minus)
  have "ieee_round 53 1024 (of_int (3 * 2 ^ 51) * 2 powi (- 50)) = Finite (of_int (3 * 2 ^ 51) * 2 powi (- 50))"
    by (rule ieee_round_exact) simp_all
  then show "binary64 6 = Finite 6"
    by (simp add: binary64_def power_int_minus)
qed

lemma x87_8: "x87_extended 8 = Finite 8" and x87_6: "x87_extended 6 = Finite 6"
proof -
  have "ieee_round 64 16384 (of_int (2 ^ 63) * 2 powi (- 60)) = Finite (of_int (2 ^ 63) * 2 powi (- 60))"
    by (rule ieee_round_exact) simp_all
  then show "x87_extended 8 = Finite 8"
    by (simp add: x87_extended_def power_int_minus)
  have "ieee_round 64 16384 (of_int (3 * 2 ^ 62) * 2 powi (- 61)) = Finite (of_int (3 * 2 ^ 62) * 2 powi (- 61))"
    by (rule ieee_round_exact) simp_all
  then show "x87_extended 6 = Finite 6"
    by (simp add: x87_extended_def power_int_minus)
qed

lemma x86_64_polygons:
  "get_circumference x86_64 (Square (Finite 2)) = (Finite 8, Square (Finite 2))"
  "get_circumference x86_64 (Equilateral_triangle (Finite 2)) = (Finite 6, Equilateral_triangle (Finite 2))"
  by (simp_all add: ldbl_mul_def to_long_double_def to_double_def x86_64_fields
      x87_8 x87_6 binary64_8 binary64_6)

section \<open>Error analysis\<close>

lemma round_step:
  fixes z u lo hi L H :: real
  assumes rw: "rounds_within u lo hi rnd" and u: "0 \<le> u" "u \<le> 1"
    and z: "L \<le> z" "z \<le> H" "0 \<le> L" and rng: "z = 0 \<or> (lo \<le> z \<and> z \<le> hi)"
  shows "\<exists>y. rnd z = Finite y \<and> L * (1 - u) \<le> y \<and> y \<le> H * (1 + u)"
proof -
  have z0: "0 \<le> z" using z by linarith
  with rng have "z = 0 \<or> (lo \<le> \<bar>z\<bar> \<and> \<bar>z\<bar> \<le> hi)" by simp
  with rw obtain y where y: "rnd z = Finite y" "\<bar>y - z\<bar> \<le> u * \<bar>z\<bar>"
    unfolding rounds_within_def by blast
  from rel_error_bounds [OF y(2) z(1,2,3) u] y(1) show ?thesis by blast
qed

lemma one_plus_pow4:
  fixes u :: real
  assumes "0 \<le> u" and "u \<le> 1 / 10"
  shows "(1 + u) ^ 4 \<le> 1 + 5 * u"
proof -
  have uu: "u * u \<le> u * (1 / 10)"
    using assms by (intro mult_left_mono) simp_all
  have "(1 + u)\<^sup>2 = 1 + 2 * u + u * u"
    by (simp add: power2_eq_square algebra_simps)
  with uu have sq: "(1 + u)\<^sup>2 \<le> 1 + (21 / 10) * u"
    by simp
  have "(1 + u) ^ 4 = ((1 + u)\<^sup>2)\<^sup>2"
    by (simp add: power4_eq_xxxx power2_eq_square algebra_simps)
  also have "\<dots> \<le> (1 + (21 / 10) * u)\<^sup>2"
    by (rule power_mono [OF sq]) simp
  also have "\<dots> = 1 + (42 / 10) * u + (441 / 100) * (u * u)"
    by (simp add: power2_eq_square algebra_simps)
  also have "\<dots> \<le> 1 + 5 * u"
    using uu assms(1) by linarith
  finally show ?thesis .
qed

lemma one_minus_pow4:
  fixes u :: real
  assumes "0 \<le> u" and "u \<le> 1"
  shows "1 - 4 * u \<le> (1 - u) ^ 4"
  using Bernoulli_inequality [of "- u" 4] assms by simp

text \<open>
  The circle: four roundings (the arctangent, two products, the \<^verbatim>\<open>return\<close>), each within
  \<open>u\<close>, leave the result within \<open>(1 + u) ^ 4\<close> of \<open>2 * pi * x\<close>.
\<close>

lemma circle_error_analysis:
  assumes acc: "accurate_platform u lo hi P"
    and u0: "0 \<le> u" and u1: "u \<le> 1 / 10 ^ 12"
    and lo: "lo \<le> 3" and hi: "9 \<le> hi"
    and x0: "0 \<le> x" and xr: "x = 0 \<or> (lo \<le> 3 * x \<and> 9 * x \<le> hi)"
  shows "\<exists>y. circle (Finite x) = Inr (Circle (Finite x)) \<and>
           get_circumference P (Circle (Finite x)) = (Finite y, Circle (Finite x)) \<and>
           \<bar>y - 2 * pi * x\<bar> \<le> 1 / 10 ^ 9 * (2 * pi * x)"
proof -
  define d where "d = 1 - u"
  define g where "g = 1 + u"
  define t where "t = 2 * pi"
  have u_small: "u \<le> 1 / 100" "u \<le> 1 / 10" "u \<le> 1"
    using u1 by simp_all
  have d: "99 / 100 \<le> d" "d \<le> 1" "0 \<le> d"
    using u0 u_small by (simp_all add: d_def)
  have g: "1 \<le> g" "g \<le> 101 / 100" "0 \<le> g"
    using u0 u_small by (simp_all add: g_def)
  have t: "4 \<le> t" "t \<le> 8"
    using pi_ge_two pi_less_4 by (simp_all add: t_def)
  have rd: "rounds_within u lo hi (round_double P)"
    and rl: "rounds_within u lo hi (round_long_double P)"
    using acc by (simp_all add: accurate_platform_def)
  from acc obtain a where a: "std_atan P (Finite 1) = Finite a"
    and a_err: "\<bar>a - pi / 4\<bar> \<le> u * (pi / 4)"
    by (auto simp: accurate_platform_def)
  have "4 * (99 / 100) \<le> t * d"
    by (intro mult_mono) (use t d in simp_all)
  then have td1: "396 / 100 \<le> t * d"
    by simp
  have "396 / 100 * (99 / 100) \<le> t * d * d"
    by (intro mult_mono) (use td1 d in simp_all)
  then have td2: "392 / 100 \<le> t * d * d"
    by simp
  have "392 / 100 * (99 / 100) \<le> t * d * d * d"
    by (intro mult_mono) (use td2 d in simp_all)
  then have td3: "388 / 100 \<le> t * d * d * d"
    by simp
  have "t * g \<le> 8 * (101 / 100)"
    by (intro mult_mono) (use t g in simp_all)
  then have tg1: "t * g \<le> 808 / 100"
    by simp
  have "t * g * g \<le> 808 / 100 * (101 / 100)"
    by (intro mult_mono) (use tg1 t g in simp_all)
  then have tg2: "t * g * g \<le> 817 / 100"
    by simp
  have "t * g * g * g \<le> 817 / 100 * (101 / 100)"
    by (intro mult_mono) (use tg2 t g in simp_all)
  then have tg3: "t * g * g * g \<le> 826 / 100"
    by simp
  \<comment> \<open>the arctangent\<close>
  have "pi / 4 * d \<le> a \<and> a \<le> pi / 4 * g"
    unfolding d_def g_def
    using rel_error_bounds [of a "pi / 4" u "pi / 4" "pi / 4"] a_err u0 u_small by simp
  then have z1: "t * d \<le> 8 * a" "8 * a \<le> t * g"
    by (simp_all add: t_def)
  \<comment> \<open>\<open>8.L * atan(1)\<close>\<close>
  have "\<exists>b. round_long_double P (8 * a) = Finite b \<and> t * d * (1 - u) \<le> b \<and> b \<le> t * g * (1 + u)"
    by (rule round_step [OF rl u0 u_small(3) z1]) (use td1 tg1 z1 lo hi in auto)
  then obtain b where b: "round_long_double P (8 * a) = Finite b"
    and b_lo: "t * d * d \<le> b" and b_hi: "b \<le> t * g * g"
    by (auto simp: d_def g_def)
  \<comment> \<open>\<open>... * r_\<close>\<close>
  have z2: "t * d * d * x \<le> b * x" "b * x \<le> t * g * g * x"
    using b_lo b_hi x0 by (simp_all add: mult_right_mono)
  have l2: "3 * x \<le> t * d * d * x" and h2: "t * g * g * x \<le> 9 * x"
    using td2 tg2 x0 by (simp_all add: mult_right_mono)
  have "\<exists>c. round_long_double P (b * x) = Finite c \<and>
          t * d * d * x * (1 - u) \<le> c \<and> c \<le> t * g * g * x * (1 + u)"
  proof (rule round_step [OF rl u0 u_small(3) z2])
    show "0 \<le> t * d * d * x"
      using l2 x0 by linarith
    show "b * x = 0 \<or> lo \<le> b * x \<and> b * x \<le> hi"
      using xr z2 l2 h2 by auto
  qed
  then obtain c where c: "round_long_double P (b * x) = Finite c"
    and c_lo: "t * d * d * x * d \<le> c" and c_hi: "c \<le> t * g * g * x * g"
    by (auto simp: d_def g_def)
  \<comment> \<open>the \<open>return\<close>\<close>
  have l3: "3 * x \<le> t * d * d * x * d" and h3: "t * g * g * x * g \<le> 9 * x"
  proof -
    have "3 * x \<le> (t * d * d * d) * x" and "(t * g * g * g) * x \<le> 9 * x"
      using td3 tg3 x0 by (simp_all add: mult_right_mono)
    then show "3 * x \<le> t * d * d * x * d" and "t * g * g * x * g \<le> 9 * x"
      by (simp_all add: mult_ac)
  qed
  have "\<exists>y. round_double P c = Finite y \<and>
          t * d * d * x * d * (1 - u) \<le> y \<and> y \<le> t * g * g * x * g * (1 + u)"
  proof (rule round_step [OF rd u0 u_small(3) c_lo c_hi])
    show "0 \<le> t * d * d * x * d"
      using l3 x0 by linarith
    show "c = 0 \<or> lo \<le> c \<and> c \<le> hi"
      using xr c_lo c_hi l3 h3 by auto
  qed
  then obtain y where y: "round_double P c = Finite y"
    and y_lo: "t * d * d * x * d * d \<le> y" and y_hi: "y \<le> t * g * g * x * g * g"
    by (auto simp: d_def g_def)
  have tx: "0 \<le> t * x"
    using t x0 by simp
  have "t * d * d * x * d * d = t * x * (1 - u) ^ 4"
    and "t * g * g * x * g * g = t * x * (1 + u) ^ 4"
    by (simp_all add: d_def g_def power4_eq_xxxx mult_ac)
  moreover have "t * x * (1 - 4 * u) \<le> t * x * (1 - u) ^ 4"
    by (intro mult_left_mono one_minus_pow4 tx u0 u_small)
  moreover have "t * x * (1 + u) ^ 4 \<le> t * x * (1 + 5 * u)"
    by (intro mult_left_mono one_plus_pow4 tx u0 u_small)
  ultimately have "t * x * (1 - 4 * u) \<le> y" and "y \<le> t * x * (1 + 5 * u)"
    using y_lo y_hi by linarith+
  then have "\<bar>y - t * x\<bar> \<le> 5 * u * (t * x)"
    using tx u0 by (simp add: abs_le_iff algebra_simps)
  also have "\<dots> \<le> 5 * (1 / 10 ^ 12) * (t * x)"
    by (intro mult_right_mono mult_left_mono u1 tx) simp
  also have "\<dots> \<le> 1 / 10 ^ 9 * (t * x)"
    by (intro mult_right_mono tx) simp
  finally have tol: "\<bar>y - 2 * pi * x\<bar> \<le> 1 / 10 ^ 9 * (2 * pi * x)"
    by (simp add: t_def mult_ac)
  have ctor: "circle (Finite x) = Inr (Circle (Finite x))"
    using x0 by (simp add: circle_def int_to_double_def)
  have "get_circumference P (Circle (Finite x)) = (Finite y, Circle (Finite x))"
    using a b c y
    by (simp add: ldbl_mul_def to_long_double_def to_double_def int_to_double_def)
  with ctor tol show ?thesis
    by blast
qed

text \<open>At the radius \<open>2 ^ 1023\<close> the product fits \<^verbatim>\<open>long double\<close> and overflows \<^verbatim>\<open>double\<close>.\<close>

lemma circle_overflow:
  "fst (get_circumference x86_64 (Circle (Finite (2 ^ 1023)))) = Infinity False"
proof -
  define R :: real where "R = 2 powi 1023"
  have R: "R = 2 ^ 1023"
    by (simp only: R_def power_int_numeral)
  have R0: "0 < R"
    by (simp add: R_def)
  define u :: real where "u = 1 / 2 ^ 53"
  have u: "0 \<le> u" "u \<le> 1 / 100" "u \<le> 1"
    by (simp_all add: u_def)
  obtain a where a: "std_atan x86_64 (Finite 1) = Finite a"
    and a_err: "\<bar>a - pi / 4\<bar> \<le> u * (pi / 4)"
    using x86_64_atan_1 unfolding u_def by blast
  have "1 / 2 * (1 - u) \<le> a \<and> a \<le> 1 * (1 + u)"
    by (rule rel_error_bounds [of a "pi / 4" u]) (use a_err u pi_ge_two pi_less_4 in simp_all)
  then have a_lo: "4 / 10 \<le> a" and a_hi: "a \<le> 11 / 10"
    using u by simp_all
  \<comment> \<open>\<open>8.L * atan(1)\<close>\<close>
  have "(2::real) powi (- 1022) \<le> 2 powi 1" and "(2::real) powi 4 \<le> 2 powi 1023"
    by (simp_all only: pow2_le_iff)
  then have "2 powi (- 1022) \<le> \<bar>8 * a\<bar> \<and> \<bar>8 * a\<bar> \<le> 2 powi 1023"
    using a_lo a_hi by simp
  with x87_rounds_within obtain b where b: "x87_extended (8 * a) = Finite b"
    and b_err: "\<bar>b - 8 * a\<bar> \<le> u * \<bar>8 * a\<bar>"
    unfolding rounds_within_def u_def by blast
  have "32 / 10 * (1 - u) \<le> b \<and> b \<le> 88 / 10 * (1 + u)"
    by (rule rel_error_bounds [OF b_err]) (use a_lo a_hi u in simp_all)
  then have b_lo: "3 \<le> b" and b_hi: "b \<le> 9"
    using u by simp_all
  \<comment> \<open>\<open>... * r_\<close>\<close>
  have bR: "3 * R \<le> b * R" "b * R \<le> 9 * R"
    using b_lo b_hi R0 by simp_all
  have "(2::real) powi (2 - 16384) \<le> 2 powi 1023" and "(2::real) powi 1027 \<le> 2 powi (16384 - 1)"
    by (simp_all only: pow2_le_iff)
  moreover have "16 * R = 2 powi 1027"
  proof -
    have "(2::real) powi (4 + 1023) = 2 powi 4 * 2 powi 1023"
      by (rule power_int_add) simp
    then show ?thesis by (simp add: R_def)
  qed
  ultimately have l: "2 powi (2 - 16384) \<le> \<bar>b * R\<bar>" and h: "\<bar>b * R\<bar> \<le> 2 powi (16384 - 1)"
    using bR R0 unfolding R_def [symmetric] by linarith+
  have "\<exists>c. ieee_round 64 16384 (b * R) = Finite c \<and> \<bar>c - b * R\<bar> \<le> \<bar>b * R\<bar> / 2 ^ 64"
    by (rule ieee_round_accurate [OF _ l h]) simp
  then obtain c where c: "x87_extended (b * R) = Finite c"
    and c_err: "\<bar>c - b * R\<bar> \<le> 1 / 2 ^ 64 * \<bar>b * R\<bar>"
    unfolding x87_extended_def by auto
  have "3 * R * (1 - 1 / 2 ^ 64) \<le> c \<and> c \<le> 9 * R * (1 + 1 / 2 ^ 64)"
    by (rule rel_error_bounds [OF c_err bR]) (use R0 in simp_all)
  then have "3 * R * (1 - 1 / 2 ^ 64) \<le> c"
    by blast
  moreover have "2 * R \<le> 3 * R * (1 - 1 / 2 ^ 64)"
    using R0 by simp
  moreover have "2 * R = 2 powi 1024"
  proof -
    have "(2::real) powi (1 + 1023) = 2 powi 1 * 2 powi 1023"
      by (rule power_int_add) simp
    then show ?thesis by (simp add: R_def)
  qed
  ultimately have "2 powi 1024 \<le> c"
    by linarith
  then have y: "binary64 c = Infinity False"
    unfolding binary64_def by (intro ieee_round_overflow) simp_all
  have rl: "round_long_double x86_64 = x87_extended" and rd: "round_double x86_64 = binary64"
    by (simp_all add: x86_64_def)
  have one: "int_to_double 1 = Finite 1"
    by (simp add: int_to_double_def)
  have "fst (get_circumference x86_64 (Circle (Finite R))) = Infinity False"
    by (simp add: ldbl_mul_def to_long_double_def to_double_def one a rl rd b c y)
  then show ?thesis
    unfolding R .
qed

text \<open>
  The sum: after \<open>k\<close> additions of nonnegative numbers the accumulator is within
  \<open>(1 - u) ^ k\<close> and \<open>(1 + u) ^ k\<close> of the exact sum.
\<close>

lemma sum_fold_bounds:
  fixes u lo hi :: real
  assumes exact: "double_conversion_exact P"
    and rw: "rounds_within u lo hi (round_double P)"
    and u: "0 \<le> u" "u \<le> 1" and lo: "0 < lo"
  shows "(\<forall>v\<in>set vs. v = 0 \<or> lo \<le> v) \<Longrightarrow> round_double P a = Finite a \<Longrightarrow> 0 \<le> A \<Longrightarrow>
         A * (1 - u) ^ k \<le> a \<Longrightarrow> a \<le> A * (1 + u) ^ k \<Longrightarrow>
         (A + sum_list vs) * (1 + u) ^ (k + length vs) \<le> hi \<Longrightarrow>
         \<exists>s. foldl (\<lambda>acc v. dbl_add P acc (Finite v)) (Finite a) vs = Finite s \<and>
             (A + sum_list vs) * (1 - u) ^ (k + length vs) \<le> s \<and>
             s \<le> (A + sum_list vs) * (1 + u) ^ (k + length vs)"
proof (induction vs arbitrary: a A k)
  case Nil
  then show ?case by simp
next
  case (Cons v vs)
  have d: "0 \<le> 1 - u" "1 - u \<le> 1" and g: "1 \<le> 1 + u" "0 \<le> 1 + u"
    using u by simp_all
  have dk: "0 \<le> (1 - u) ^ k" "(1 - u) ^ k \<le> 1"
    using d by (simp_all add: power_le_one)
  have gk: "1 \<le> (1 + u) ^ k"
    using g by (simp add: one_le_power)
  have v0: "0 \<le> v" and rest: "\<forall>w\<in>set vs. w = 0 \<or> lo \<le> w"
    using Cons.prems(1) lo by auto
  have rest0: "0 \<le> sum_list vs"
    by (rule sum_list_nonneg) (use rest lo in auto)
  have a0: "0 \<le> a"
  proof -
    have "0 \<le> A * (1 - u) ^ k"
      using Cons.prems(3) dk by simp
    with Cons.prems(4) show ?thesis by linarith
  qed
  have hi': "(A + v + sum_list vs) * (1 + u) ^ (Suc k + length vs) \<le> hi"
    using Cons.prems(6) by (simp add: add.assoc)
  show ?case
  proof (cases "v = 0")
    case True
    have step: "dbl_add P (Finite a) (Finite v) = Finite a"
      using True Cons.prems(2) by (simp add: dbl_add_def)
    have lo_a: "A * (1 - u) ^ Suc k \<le> a"
    proof -
      have "A * (1 - u) ^ k * (1 - u) \<le> A * (1 - u) ^ k * 1"
        using Cons.prems(3) dk d by (intro mult_left_mono) simp_all
      with Cons.prems(4) show ?thesis by (simp add: mult_ac)
    qed
    have hi_a: "a \<le> A * (1 + u) ^ Suc k"
    proof -
      have "A * (1 + u) ^ k * 1 \<le> A * (1 + u) ^ k * (1 + u)"
        using Cons.prems(3) g by (intro mult_left_mono) simp_all
      with Cons.prems(5) show ?thesis by (simp add: mult_ac)
    qed
    from Cons.IH [OF rest Cons.prems(2,3) lo_a hi_a] hi' True
    obtain s where "foldl (\<lambda>acc v. dbl_add P acc (Finite v)) (Finite a) vs = Finite s"
      and "(A + sum_list vs) * (1 - u) ^ (Suc k + length vs) \<le> s"
      and "s \<le> (A + sum_list vs) * (1 + u) ^ (Suc k + length vs)"
      by auto
    then show ?thesis
      using step True by simp
  next
    case False
    with Cons.prems(1) have lov: "lo \<le> v" by simp
    define z where "z = a + v"
    have zL: "(A + v) * (1 - u) ^ k \<le> z"
    proof -
      have "v * (1 - u) ^ k \<le> v * 1"
        using v0 dk by (intro mult_left_mono) simp_all
      with Cons.prems(4) show ?thesis by (simp add: z_def algebra_simps)
    qed
    have zH: "z \<le> (A + v) * (1 + u) ^ k"
    proof -
      have "v * 1 \<le> v * (1 + u) ^ k"
        using v0 gk by (intro mult_left_mono) simp_all
      with Cons.prems(5) show ?thesis by (simp add: z_def algebra_simps)
    qed
    have L0: "0 \<le> (A + v) * (1 - u) ^ k"
      using Cons.prems(3) v0 dk by simp
    have z_hi: "z \<le> hi"
    proof -
      have "(A + v) * (1 + u) ^ k \<le> (A + v + sum_list vs) * (1 + u) ^ (Suc k + length vs)"
        using Cons.prems(3) v0 rest0 g
        by (intro mult_mono power_increasing) simp_all
      with zH hi' show ?thesis by linarith
    qed
    have z_lo: "lo \<le> z"
      using lov a0 by (simp add: z_def)
    have "\<exists>y. round_double P z = Finite y \<and>
            (A + v) * (1 - u) ^ k * (1 - u) \<le> y \<and> y \<le> (A + v) * (1 + u) ^ k * (1 + u)"
      by (rule round_step [OF rw u zL zH L0]) (use z_lo z_hi in simp)
    then obtain y where y: "round_double P z = Finite y"
      and y_lo: "(A + v) * (1 - u) ^ Suc k \<le> y" and y_hi: "y \<le> (A + v) * (1 + u) ^ Suc k"
      by (auto simp: mult_ac)
    have idem: "round_double P y = Finite y"
      using exact y unfolding double_conversion_exact_def by blast
    have step: "dbl_add P (Finite a) (Finite v) = Finite y"
      using y by (simp add: dbl_add_def z_def)
    have Av: "0 \<le> A + v"
      using Cons.prems(3) v0 by simp
    from Cons.IH [OF rest idem Av y_lo y_hi hi']
    obtain s where "foldl (\<lambda>acc v. dbl_add P acc (Finite v)) (Finite y) vs = Finite s"
      and "(A + v + sum_list vs) * (1 - u) ^ (Suc k + length vs) \<le> s"
      and "s \<le> (A + v + sum_list vs) * (1 + u) ^ (Suc k + length vs)"
      by auto
    then show ?thesis
      using step by (simp add: add.assoc)
  qed
qed

lemma pow_spread:
  fixes u :: real
  assumes "0 \<le> u" and "u \<le> 1" and "real n * u \<le> 1"
  shows "(1 + u) ^ n - (1 - u) ^ n \<le> 3 * real n * u"
proof -
  have "1 + real n * (- u) \<le> (1 + (- u)) ^ n"
    by (rule Bernoulli_inequality) (use assms in simp)
  then have low: "1 - real n * u \<le> (1 - u) ^ n"
    by simp
  have "(1 + u) ^ n \<le> exp u ^ n"
    by (rule power_mono) (use assms in simp_all)
  also have "\<dots> = exp (real n * u)"
    by (simp add: exp_of_nat_mult)
  also have "\<dots> \<le> 1 + real n * u + (real n * u)\<^sup>2"
    by (rule exp_bound) (use assms in simp_all)
  also have "\<dots> \<le> 1 + real n * u + real n * u"
  proof -
    have "(real n * u)\<^sup>2 \<le> real n * u * 1"
      unfolding power2_eq_square using assms by (intro mult_left_mono) simp_all
    then show ?thesis by (simp add: mult.commute)
  qed
  finally have "(1 + u) ^ n \<le> 1 + real n * u + real n * u" .
  with low show ?thesis by linarith
qed

lemma foldl_finite_values:
  assumes "\<forall>b\<in>set bs. \<exists>v. c b = Finite v"
  shows "foldl (\<lambda>a b. dbl_add P a (c b)) init bs =
           foldl (\<lambda>a v. dbl_add P a (Finite v)) init (map (\<lambda>b. finite_value (c b)) bs)"
  using assms
proof (induction bs arbitrary: init)
  case Nil
  then show ?case by simp
next
  case (Cons b bs)
  from Cons.prems obtain v where "c b = Finite v" by auto
  then have "dbl_add P init (c b) = dbl_add P init (Finite (finite_value (c b)))"
    by simp
  moreover have "\<forall>b\<in>set bs. \<exists>v. c b = Finite v"
    using Cons.prems by simp
  ultimately show ?case
    using Cons.IH by simp
qed

lemma scene_sum_bounds:
  fixes u lo hi :: real
  assumes exact: "double_conversion_exact P"
    and rw: "rounds_within u lo hi (round_double P)"
    and u: "0 \<le> u" "u \<le> 1" and lo: "0 < lo"
    and vals: "\<forall>b\<in>set (shapes sc). \<exists>obj v. h b = Some obj \<and>
                 fst (get_circumference P obj) = Finite v \<and> (v = 0 \<or> lo \<le> v)"
    and S: "S = (\<Sum>b\<leftarrow>shapes sc. finite_value (fst (get_circumference P (the (h b)))))"
    and n: "n = length (shapes sc)"
    and hi: "S * (1 + u) ^ n \<le> hi"
  shows "\<exists>s. scene_get_circumference P sc h = Some (Finite s, sc, h) \<and>
             S * (1 - u) ^ n \<le> s \<and> s \<le> S * (1 + u) ^ n"
proof -
  let ?c = "\<lambda>b. fst (get_circumference P (the (h b)))"
  let ?vs = "map (\<lambda>b. finite_value (?c b)) (shapes sc)"
  have dom: "set (shapes sc) \<subseteq> dom h"
    using vals by auto
  have zero: "to_double P (Finite 0) = Finite 0" and zero': "round_double P 0 = Finite 0"
    using exact by (simp_all add: to_double_def double_conversion_exact_def)
  have "scene_get_circumference P sc h =
          Some (foldl (\<lambda>a b. dbl_add P a (?c b)) (Finite 0) (shapes sc), sc, h)"
    unfolding scene_get_circumference_def
    by (simp add: accumulate_fold [OF exact dom zero] to_double_foldl [OF exact zero])
  moreover have "foldl (\<lambda>a b. dbl_add P a (?c b)) (Finite 0) (shapes sc) =
                   foldl (\<lambda>a v. dbl_add P a (Finite v)) (Finite 0) ?vs"
    by (rule foldl_finite_values) (use vals in fastforce)
  moreover have "\<exists>s. foldl (\<lambda>acc v. dbl_add P acc (Finite v)) (Finite 0) ?vs = Finite s \<and>
             (0 + sum_list ?vs) * (1 - u) ^ (0 + length ?vs) \<le> s \<and>
             s \<le> (0 + sum_list ?vs) * (1 + u) ^ (0 + length ?vs)"
  proof (rule sum_fold_bounds [OF exact rw u lo _ zero'])
    show "\<forall>v\<in>set ?vs. v = 0 \<or> lo \<le> v"
      using vals by fastforce
    show "(0 + sum_list ?vs) * (1 + u) ^ (0 + length ?vs) \<le> hi"
      using hi by (simp add: S n)
  qed simp_all
  ultimately show ?thesis
    by (simp add: S n)
qed

section \<open>Properties of the specification\<close>

text \<open>
  C1. Each of the three constructors fails, with \<open>dimension_smaller_than_zero\<close>, if and
  only if the dimension is strictly negative (a negative finite number or minus infinity),
  and then produces no shape. On a dimension \<open>\<ge> 0\<close>, zero included, it succeeds and the new
  object holds the dimension it was given.
\<close>

theorem constructors_reject_exactly_negative:
  "(isl (circle d) \<longleftrightarrow> flt d (Finite 0)) \<and>
   (isl (square d) \<longleftrightarrow> flt d (Finite 0)) \<and>
   (isl (equilateral_triangle d) \<longleftrightarrow> flt d (Finite 0)) \<and>
   (flt d (Finite 0) \<longleftrightarrow> d = Infinity True \<or> (\<exists>x. d = Finite x \<and> x < 0)) \<and>
   (flt d (Finite 0) \<longrightarrow>
      circle d =
        Inl (dimension_smaller_than_zero ''A circle must have a radius of at least 0.'') \<and>
      square d =
        Inl (dimension_smaller_than_zero ''A square must have a length of at least 0.'') \<and>
      equilateral_triangle d =
        Inl (dimension_smaller_than_zero
               ''An equilateral_triangle must have a length of at least 0.'')) \<and>
   (fge d (Finite 0) \<longrightarrow>
      circle d = Inr (Circle d) \<and> circle_r (Circle d) = d \<and>
      square d = Inr (Square d) \<and> square_side (Square d) = d \<and>
      equilateral_triangle d = Inr (Equilateral_triangle d) \<and>
      triangle_side (Equilateral_triangle d) = d)"
proof (cases d)
  case NaN
  then show ?thesis
    by (simp add: circle_def square_def equilateral_triangle_def int_to_double_def)
next
  case (Infinity s)
  then show ?thesis
    by (simp add: circle_def square_def equilateral_triangle_def int_to_double_def)
next
  case (Finite x)
  then show ?thesis
    by (simp add: circle_def square_def equilateral_triangle_def int_to_double_def not_less)
qed

theorem constructors_reject_exactly_negative_witness:
  "flt (Finite (- 1)) (Finite 0) \<and>
   isl (circle (Finite (- 1))) \<and>
   isl (square (Finite (- 1))) \<and>
   isl (equilateral_triangle (Finite (- 1))) \<and>
   circle (Finite (- 1)) =
     Inl (dimension_smaller_than_zero ''A circle must have a radius of at least 0.'') \<and>
   fge (Finite 0) (Finite 0) \<and>
   circle (Finite 0) = Inr (Circle (Finite 0)) \<and>
   square (Finite 0) = Inr (Square (Finite 0)) \<and>
   equilateral_triangle (Finite 0) = Inr (Equilateral_triangle (Finite 0))"
  using constructors_reject_exactly_negative [of "Finite (- 1)"]
    constructors_reject_exactly_negative [of "Finite 0"]
  by simp

text \<open>
  C2, as amended. For every finite radius \<open>x \<ge> 0\<close> the constructor succeeds and
  \<open>get_circumference\<close> returns a finite value within the relative tolerance \<open>1 / 10 ^ 9\<close> of
  \<open>2 * pi * x\<close>, provided the platform is accurate to some \<open>u \<le> 1 / 10 ^ 12\<close> on a range from
  \<open>lo\<close> to \<open>hi\<close> that holds 3 and 9, and \<open>x\<close> is zero or keeps \<open>3 * x\<close> and \<open>9 * x\<close> in that
  range: the circumference neither underflows nor overflows.
\<close>

theorem circle_circumference_within_tolerance:
  assumes acc: "accurate_platform u lo hi P"
    and u0: "0 \<le> u" and u1: "u \<le> 1 / 10 ^ 12"
    and lo: "lo \<le> 3" and hi: "9 \<le> hi"
    and x0: "0 \<le> x" and xr: "x = 0 \<or> (lo \<le> 3 * x \<and> 9 * x \<le> hi)"
  shows "circle (Finite x) = Inr (Circle (Finite x)) \<and>
         within_relative (1 / 10 ^ 9) (fst (get_circumference P (Circle (Finite x)))) (2 * pi * x)"
proof -
  from circle_error_analysis [OF assms]
  obtain y where "circle (Finite x) = Inr (Circle (Finite x))"
    and "get_circumference P (Circle (Finite x)) = (Finite y, Circle (Finite x))"
    and "\<bar>y - 2 * pi * x\<bar> \<le> 1 / 10 ^ 9 * (2 * pi * x)"
    by blast
  moreover have "0 \<le> 2 * pi * x"
    using x0 by simp
  ultimately show ?thesis
    by (simp add: within_relative_def)
qed

theorem circle_circumference_within_tolerance_witness:
  "accurate_platform (1 / 2 ^ 53) (2 powi (- 1022)) (2 powi 1023) x86_64 \<and>
   (1::real) / 2 ^ 53 \<le> 1 / 10 ^ 12 \<and>
   (2::real) powi (- 1022) \<le> 3 * 1 \<and> 9 * 1 \<le> (2::real) powi 1023 \<and>
   circle (Finite 1) = Inr (Circle (Finite 1)) \<and>
   within_relative (1 / 10 ^ 9) (fst (get_circumference x86_64 (Circle (Finite 1)))) (2 * pi * 1)"
proof -
  have lo: "(2::real) powi (- 1022) \<le> 3"
  proof -
    have "(2::real) powi (- 1022) \<le> 2 powi 0"
      by (simp only: pow2_le_iff)
    then show ?thesis by simp
  qed
  have hi: "9 \<le> (2::real) powi 1023"
  proof -
    have "(2::real) powi 4 \<le> 2 powi 1023"
      by (simp only: pow2_le_iff)
    then show ?thesis by simp
  qed
  have u: "(0::real) \<le> 1 / 2 ^ 53" "(1::real) / 2 ^ 53 \<le> 1 / 10 ^ 12"
    by simp_all
  have x: "(0::real) \<le> 1"
    "(1::real) = 0 \<or> ((2::real) powi (- 1022) \<le> 3 * 1 \<and> 9 * 1 \<le> (2::real) powi 1023)"
    using lo hi by (simp_all only: mult_1_right) simp_all
  from x(2) have r: "(2::real) powi (- 1022) \<le> 3 * 1 \<and> 9 * 1 \<le> (2::real) powi 1023"
    by simp
  from circle_circumference_within_tolerance [OF x86_64_accurate u lo hi x] x86_64_accurate u(2) r
  show ?thesis by blast
qed

text \<open>
  C2 as stated, for every radius \<open>\<ge> 0\<close>, fails where the circumference overflows: the
  radius \<open>2 ^ 1023\<close> is a \<^verbatim>\<open>double\<close>, the constructor takes it, and \<open>get_circumference\<close>
  returns plus infinity, which is within no tolerance of \<open>2 * pi * 2 ^ 1023\<close>.
\<close>

theorem circle_circumference_overflow_counterexample:
  "circle (Finite (2 ^ 1023)) = Inr (Circle (Finite (2 ^ 1023))) \<and>
   fst (get_circumference x86_64 (Circle (Finite (2 ^ 1023)))) = Infinity False \<and>
   \<not> within_relative (1 / 10 ^ 9)
        (fst (get_circumference x86_64 (Circle (Finite (2 ^ 1023))))) (2 * pi * 2 ^ 1023)"
proof -
  have "circle (Finite (2 ^ 1023)) = Inr (Circle (Finite (2 ^ 1023)))"
    by (simp add: circle_def int_to_double_def)
  then show ?thesis
    by (simp only: circle_overflow within_relative_def fp.case) simp
qed

text \<open>
  C3. For every side \<open>\<ge> 0\<close> the constructors of the square and of the equilateral triangle
  succeed, and \<open>get_circumference\<close> of the objects returns \<open>4 * side\<close> and \<open>3 * side\<close>: for a
  finite side \<open>x\<close> the real product \<open>4 * x\<close> (\<open>3 * x\<close>) rounded to \<^verbatim>\<open>long double\<close> and then to
  \<^verbatim>\<open>double\<close>, which is the product rounded to \<^verbatim>\<open>double\<close> when \<^verbatim>\<open>long double\<close> holds it
  exactly; for an infinite side, plus infinity.
\<close>

theorem polygon_circumference:
  assumes "fge side (Finite 0)"
  shows "square side = Inr (Square side) \<and>
         equilateral_triangle side = Inr (Equilateral_triangle side) \<and>
         fst (get_circumference P (Square side)) =
           (case side of
              Finite x \<Rightarrow>
                (case round_long_double P (4 * x) of
                   Finite v \<Rightarrow> round_double P v
                 | r \<Rightarrow> r)
            | _ \<Rightarrow> Infinity False) \<and>
         fst (get_circumference P (Equilateral_triangle side)) =
           (case side of
              Finite x \<Rightarrow>
                (case round_long_double P (3 * x) of
                   Finite v \<Rightarrow> round_double P v
                 | r \<Rightarrow> r)
            | _ \<Rightarrow> Infinity False) \<and>
         (\<forall>x. side = Finite x \<and> round_long_double P (4 * x) = Finite (4 * x) \<longrightarrow>
              fst (get_circumference P (Square side)) = round_double P (4 * x)) \<and>
         (\<forall>x. side = Finite x \<and> round_long_double P (3 * x) = Finite (3 * x) \<longrightarrow>
              fst (get_circumference P (Equilateral_triangle side)) = round_double P (3 * x))"
proof (cases side)
  case NaN
  with assms show ?thesis by simp
next
  case (Infinity s)
  with assms show ?thesis
    by (simp add: square_def equilateral_triangle_def int_to_double_def ldbl_mul_def
        to_long_double_def to_double_def)
next
  case (Finite x)
  with assms show ?thesis
    by (simp add: square_def equilateral_triangle_def int_to_double_def ldbl_mul_def
        to_long_double_def to_double_def not_less split: fp.splits)
qed

theorem polygon_circumference_witness:
  "fge (Finite 2) (Finite 0) \<and>
   square (Finite 2) = Inr (Square (Finite 2)) \<and>
   equilateral_triangle (Finite 2) = Inr (Equilateral_triangle (Finite 2)) \<and>
   round_long_double x86_64 (4 * 2) = Finite (4 * 2) \<and>
   round_long_double x86_64 (3 * 2) = Finite (3 * 2) \<and>
   fst (get_circumference x86_64 (Square (Finite 2))) = Finite 8 \<and>
   fst (get_circumference x86_64 (Equilateral_triangle (Finite 2))) = Finite 6"
proof -
  have side: "fge (Finite 2) (Finite 0)"
    by simp
  have l4: "round_long_double x86_64 (4 * 2) = Finite (4 * 2)"
    and l3: "round_long_double x86_64 (3 * 2) = Finite (3 * 2)"
    by (simp_all add: x86_64_fields x87_8 x87_6)
  have d: "round_double x86_64 (4 * 2) = Finite 8" "round_double x86_64 (3 * 2) = Finite 6"
    by (simp_all add: x86_64_fields binary64_8 binary64_6)
  note inst = polygon_circumference [OF side, of x86_64]
  from inst l4 have "fst (get_circumference x86_64 (Square (Finite 2))) = round_double x86_64 (4 * 2)"
    by blast
  moreover from inst l3
  have "fst (get_circumference x86_64 (Equilateral_triangle (Finite 2))) = round_double x86_64 (3 * 2)"
    by blast
  moreover from inst have "square (Finite 2) = Inr (Square (Finite 2))"
    and "equilateral_triangle (Finite 2) = Inr (Equilateral_triangle (Finite 2))"
    by blast+
  ultimately show ?thesis
    using side l4 l3 d by (simp only:)
qed

text \<open>
  C4. For every scene whose pointers point to shapes, \<open>scene_get_circumference\<close> returns
  the left fold over the sequence in insertion order that starts from \<open>0.0\<close> and adds each
  shape's \<open>get_circumference\<close> in turn; scene and heap are as before.
\<close>

theorem scene_circumference_is_left_fold:
  assumes "double_conversion_exact P" and "set (shapes sc) \<subseteq> dom h"
  shows "scene_get_circumference P sc h =
           Some (foldl (\<lambda>a b. dbl_add P a (fst (get_circumference P (the (h b)))))
                   (Finite 0) (shapes sc), sc, h)"
proof -
  have zero: "to_double P (Finite 0) = Finite 0"
    using assms(1) by (simp add: to_double_def double_conversion_exact_def)
  show ?thesis
    unfolding scene_get_circumference_def
    by (simp add: accumulate_fold [OF assms zero] to_double_foldl [OF assms(1) zero])
qed

theorem scene_circumference_is_left_fold_witness:
  "double_conversion_exact exact_platform \<and>
   set (shapes \<lparr>shapes = [1, 2]\<rparr>) \<subseteq> dom [1 \<mapsto> Circle (Finite 1), 2 \<mapsto> Square (Finite 1)] \<and>
   scene_get_circumference exact_platform \<lparr>shapes = [1, 2]\<rparr>
       [1 \<mapsto> Circle (Finite 1), 2 \<mapsto> Square (Finite 1)] =
     Some (Finite (2 * pi + 4), \<lparr>shapes = [1, 2]\<rparr>,
           [1 \<mapsto> Circle (Finite 1), 2 \<mapsto> Square (Finite 1)])"
proof -
  have ok: "double_conversion_exact exact_platform"
    by (simp add: double_conversion_exact_def exact_platform_def)
  have dom: "set (shapes \<lparr>shapes = [1, 2]\<rparr>)
               \<subseteq> dom [1 \<mapsto> Circle (Finite 1), 2 \<mapsto> Square (Finite 1)]"
    by simp
  show ?thesis
    using ok dom scene_circumference_is_left_fold [OF ok dom]
    by (simp add: exact_platform_def to_double_def ldbl_mul_def dbl_add_def to_long_double_def
        int_to_double_def arctan_one)
qed

text \<open>
  C5. On a scene with no shapes \<open>scene_get_circumference\<close> returns, and returns exactly
  \<open>0.0\<close>.
\<close>

theorem empty_scene_circumference_zero:
  assumes "double_conversion_exact P"
  shows "scene_get_circumference P \<lparr>shapes = []\<rparr> h = Some (Finite 0, \<lparr>shapes = []\<rparr>, h)"
  using assms
  by (simp add: scene_get_circumference_def to_double_def double_conversion_exact_def)

theorem empty_scene_circumference_zero_witness:
  "double_conversion_exact exact_platform \<and>
   scene_get_circumference exact_platform \<lparr>shapes = []\<rparr> Map.empty =
     Some (Finite 0, \<lparr>shapes = []\<rparr>, Map.empty)"
proof -
  have ok: "double_conversion_exact exact_platform"
    by (simp add: double_conversion_exact_def exact_platform_def)
  show ?thesis
    using ok empty_scene_circumference_zero [OF ok, of Map.empty] by simp
qed

text \<open>
  C6. \<open>add_shape\<close> always returns a scene, and it appends: the sequence is longer by
  exactly one, every element stored before is at its old position, and the pointer added
  is the new last element.
\<close>

theorem add_shape_appends:
  "length (shapes (add_shape sc s)) = length (shapes sc) + 1 \<and>
   (\<forall>i < length (shapes sc). shapes (add_shape sc s) ! i = shapes sc ! i) \<and>
   shapes (add_shape sc s) ! length (shapes sc) = s \<and>
   last (shapes (add_shape sc s)) = s"
  by (simp add: add_shape_def nth_append)

theorem add_shape_appends_witness:
  "(1::nat) < length (shapes \<lparr>shapes = [5, 7]\<rparr>) \<and>
   length (shapes (add_shape \<lparr>shapes = [5, 7]\<rparr> 5)) = 3 \<and>
   shapes (add_shape \<lparr>shapes = [5, 7]\<rparr> 5) ! 1 = 7 \<and>
   last (shapes (add_shape \<lparr>shapes = [5, 7]\<rparr> 5)) = 5"
proof -
  let ?sc = "\<lparr>shapes = [5, 7 :: addr]\<rparr>"
  have bound: "(1::nat) < length (shapes ?sc)"
    by simp
  note inst = add_shape_appends [of ?sc 5]
  from inst have "\<forall>i < length (shapes ?sc). shapes (add_shape ?sc 5) ! i = shapes ?sc ! i"
    by blast
  with bound have "shapes (add_shape ?sc 5) ! 1 = shapes ?sc ! 1"
    by blast
  moreover from inst have "length (shapes (add_shape ?sc 5)) = length (shapes ?sc) + 1"
    and "last (shapes (add_shape ?sc 5)) = 5"
    by blast+
  ultimately show ?thesis
    by simp
qed

text \<open>
  C7. On a NaN each of the three constructors succeeds, since \<open>NaN < 0\<close> is false, and
  \<open>get_circumference\<close> of the shape it makes returns NaN.
\<close>

theorem nan_dimension_accepted:
  "circle NaN = Inr (Circle NaN) \<and>
   square NaN = Inr (Square NaN) \<and>
   equilateral_triangle NaN = Inr (Equilateral_triangle NaN) \<and>
   fst (get_circumference P (Circle NaN)) = NaN \<and>
   fst (get_circumference P (Square NaN)) = NaN \<and>
   fst (get_circumference P (Equilateral_triangle NaN)) = NaN"
  by (simp add: circle_def square_def equilateral_triangle_def ldbl_mul_def to_long_double_def
      to_double_def fmul_NaN_right)

text \<open>
  C8. A call of \<open>get_circumference\<close> on a shape, or of \<open>scene_get_circumference\<close> on a
  scene, leaves the shape, the scene and the heap as they were, and a second call right
  after it returns the same value again.
\<close>

theorem get_circumference_repeatable:
  "(get_circumference P s = (c, s') \<longrightarrow> s' = s \<and> get_circumference P s' = (c, s')) \<and>
   (scene_get_circumference P sc h = Some (t, sc', h') \<longrightarrow>
      sc' = sc \<and> h' = h \<and> scene_get_circumference P sc' h' = Some (t, sc', h'))"
proof -
  have shape: "get_circumference P s = (c, s') \<longrightarrow> s' = s \<and> get_circumference P s' = (c, s')"
    using get_circumference_same_object [of P s] by auto
  have scene: "scene_get_circumference P sc h = Some (t, sc', h') \<longrightarrow>
      sc' = sc \<and> h' = h \<and> scene_get_circumference P sc' h' = Some (t, sc', h')"
  proof
    assume run: "scene_get_circumference P sc h = Some (t, sc', h')"
    then obtain acc where acc: "accumulate P (shapes sc) (Finite 0) h = Some (acc, h')"
      and "sc' = sc"
      by (auto simp: scene_get_circumference_def split: option.splits)
    moreover from acc have "h' = h"
      by (rule accumulate_heap)
    ultimately show "sc' = sc \<and> h' = h \<and> scene_get_circumference P sc' h' = Some (t, sc', h')"
      using run by simp
  qed
  from shape scene show ?thesis ..
qed

theorem get_circumference_repeatable_witness:
  "get_circumference exact_platform (Circle (Finite 1)) = (Finite (2 * pi), Circle (Finite 1)) \<and>
   scene_get_circumference exact_platform \<lparr>shapes = [2]\<rparr> [2 \<mapsto> Square (Finite 1)] =
     Some (Finite 4, \<lparr>shapes = [2]\<rparr>, [2 \<mapsto> Square (Finite 1)])"
proof -
  let ?h = "[2 \<mapsto> Square (Finite 1)] :: heap"
  have shape: "get_circumference exact_platform (Circle (Finite 1)) =
                 (Finite (2 * pi), Circle (Finite 1))"
    by (simp add: exact_platform_def to_double_def ldbl_mul_def to_long_double_def
        int_to_double_def arctan_one)
  have scene: "scene_get_circumference exact_platform \<lparr>shapes = [2]\<rparr> ?h =
                 Some (Finite 4, \<lparr>shapes = [2]\<rparr>, ?h)"
    by (simp add: scene_get_circumference_def exact_platform_def to_double_def ldbl_mul_def
        dbl_add_def to_long_double_def)
  from get_circumference_repeatable
         [of exact_platform "Circle (Finite 1)" "Finite (2 * pi)" "Circle (Finite 1)"
            "\<lparr>shapes = [2]\<rparr>" ?h "Finite 4" "\<lparr>shapes = [2]\<rparr>" ?h]
    shape scene
  show ?thesis by blast
qed

text \<open>
  C9, as amended. Two scenes hold the same shapes in different orders. Every shape's
  circumference is finite, and zero or at least \<open>lo\<close>; \<open>S\<close> is their exact sum and \<open>n\<close>
  their number; the rounding of \<^verbatim>\<open>double\<close> sums is accurate to \<open>u\<close> from \<open>lo\<close> to \<open>hi\<close>, with
  \<open>n * u \<le> 1\<close>; and \<open>S * (1 + u) ^ n \<le> hi\<close>, so no partial sum overflows. Then both sums
  are finite and they differ by at most \<open>3 * n * u * S\<close>.
\<close>

theorem reordered_scene_sums_agree:
  fixes u lo hi :: real
  assumes exact: "double_conversion_exact P"
    and rw: "rounds_within u lo hi (round_double P)"
    and u: "0 \<le> u" "u \<le> 1" "real (length (shapes sc1)) * u \<le> 1"
    and lo: "0 < lo"
    and perm: "mset (shapes sc1) = mset (shapes sc2)"
    and vals: "\<forall>b\<in>set (shapes sc1). \<exists>obj v. h b = Some obj \<and>
                 fst (get_circumference P obj) = Finite v \<and> (v = 0 \<or> lo \<le> v)"
    and S: "S = (\<Sum>b\<leftarrow>shapes sc1. finite_value (fst (get_circumference P (the (h b)))))"
    and hi: "S * (1 + u) ^ length (shapes sc1) \<le> hi"
  shows "\<exists>s1 s2. scene_get_circumference P sc1 h = Some (Finite s1, sc1, h) \<and>
                 scene_get_circumference P sc2 h = Some (Finite s2, sc2, h) \<and>
                 \<bar>s1 - s2\<bar> \<le> 3 * real (length (shapes sc1)) * u * S"
proof -
  let ?f = "\<lambda>b. finite_value (fst (get_circumference P (the (h b))))"
  define n where "n = length (shapes sc1)"
  have n2: "n = length (shapes sc2)"
    unfolding n_def using perm by (rule mset_eq_length)
  have set2: "set (shapes sc2) = set (shapes sc1)"
    using perm by (metis set_mset_mset)
  have S2: "S = (\<Sum>b\<leftarrow>shapes sc2. ?f b)"
  proof -
    have "mset (map ?f (shapes sc1)) = mset (map ?f (shapes sc2))"
      using perm by simp
    then have "sum_mset (mset (map ?f (shapes sc1))) = sum_mset (mset (map ?f (shapes sc2)))"
      by simp
    then show ?thesis
      by (simp only: S sum_mset_sum_list)
  qed
  have vals2: "\<forall>b\<in>set (shapes sc2). \<exists>obj v. h b = Some obj \<and>
                 fst (get_circumference P obj) = Finite v \<and> (v = 0 \<or> lo \<le> v)"
    using vals set2 by simp
  have hi': "S * (1 + u) ^ n \<le> hi"
    using hi by (simp add: n_def)
  from scene_sum_bounds [OF exact rw u(1,2) lo vals S n_def hi']
  obtain s1 where r1: "scene_get_circumference P sc1 h = Some (Finite s1, sc1, h)"
    and b1: "S * (1 - u) ^ n \<le> s1" "s1 \<le> S * (1 + u) ^ n"
    by blast
  from scene_sum_bounds [OF exact rw u(1,2) lo vals2 S2 n2 hi']
  obtain s2 where r2: "scene_get_circumference P sc2 h = Some (Finite s2, sc2, h)"
    and b2: "S * (1 - u) ^ n \<le> s2" "s2 \<le> S * (1 + u) ^ n"
    by blast
  have S0: "0 \<le> S"
    unfolding S by (rule sum_list_nonneg) (use vals lo in fastforce)
  have "\<bar>s1 - s2\<bar> \<le> S * ((1 + u) ^ n - (1 - u) ^ n)"
    using b1 b2 by (simp add: abs_le_iff algebra_simps)
  also have "\<dots> \<le> S * (3 * real n * u)"
    by (intro mult_left_mono pow_spread S0 u(1,2)) (use u(3) in \<open>simp add: n_def\<close>)
  finally have "\<bar>s1 - s2\<bar> \<le> 3 * real (length (shapes sc1)) * u * S"
    by (simp add: n_def mult_ac)
  with r1 r2 show ?thesis
    by blast
qed

theorem reordered_scene_sums_agree_witness:
  "double_conversion_exact x86_64 \<and>
   rounds_within (1 / 2 ^ 53) (2 powi (- 1022)) (2 powi 1023) (round_double x86_64) \<and>
   mset (shapes \<lparr>shapes = [10, 20]\<rparr>) = mset (shapes \<lparr>shapes = [20, 10]\<rparr>) \<and>
   (\<exists>s1 s2.
      scene_get_circumference x86_64 \<lparr>shapes = [10, 20]\<rparr> polygon_heap =
        Some (Finite s1, \<lparr>shapes = [10, 20]\<rparr>, polygon_heap) \<and>
      scene_get_circumference x86_64 \<lparr>shapes = [20, 10]\<rparr> polygon_heap =
        Some (Finite s2, \<lparr>shapes = [20, 10]\<rparr>, polygon_heap) \<and>
      \<bar>s1 - s2\<bar> \<le> 3 * 2 * (1 / 2 ^ 53) * 14)"
proof -
  let ?sc1 = "\<lparr>shapes = [10, 20 :: addr]\<rparr>" and ?sc2 = "\<lparr>shapes = [20, 10 :: addr]\<rparr>"
  have rw: "rounds_within (1 / 2 ^ 53) (2 powi (- 1022)) (2 powi 1023) (round_double x86_64)"
    using binary64_rounds_within by (simp only: x86_64_fields)
  have u: "(0::real) \<le> 1 / 2 ^ 53" "(1::real) / 2 ^ 53 \<le> 1"
    "real (length (shapes ?sc1)) * (1 / 2 ^ 53) \<le> 1"
    by simp_all
  have lo: "(0::real) < 2 powi (- 1022)"
    by simp
  have lo1: "(2::real) powi (- 1022) \<le> 1"
  proof -
    have "(2::real) powi (- 1022) \<le> 2 powi 0"
      by (simp only: pow2_le_iff)
    then show ?thesis by (simp only: power_int_0_right)
  qed
  have perm: "mset (shapes ?sc1) = mset (shapes ?sc2)"
    by (simp add: add.commute)
  have h: "polygon_heap 10 = Some (Square (Finite 2))"
    "polygon_heap 20 = Some (Equilateral_triangle (Finite 2))"
    by (simp_all add: polygon_heap_def)
  have vals: "\<forall>b\<in>set (shapes ?sc1). \<exists>obj v. polygon_heap b = Some obj \<and>
                 fst (get_circumference x86_64 obj) = Finite v \<and> (v = 0 \<or> 2 powi (- 1022) \<le> v)"
    using lo1 by (simp add: h x86_64_polygons del: get_circumference.simps)
  have S: "(14::real) = (\<Sum>b\<leftarrow>shapes ?sc1.
              finite_value (fst (get_circumference x86_64 (the (polygon_heap b)))))"
    by (simp add: h x86_64_polygons del: get_circumference.simps)
  have hi: "14 * (1 + 1 / 2 ^ 53) ^ length (shapes ?sc1) \<le> (2::real) powi 1023"
  proof -
    have "14 * (1 + 1 / 2 ^ 53) ^ length (shapes ?sc1) \<le> (2::real) powi 5"
      by (simp add: power2_eq_square)
    also have "\<dots> \<le> 2 powi 1023"
      by (simp only: pow2_le_iff)
    finally show ?thesis .
  qed
  from reordered_scene_sums_agree [OF x86_64_double_conversion_exact rw u lo perm vals S hi]
  have "\<exists>s1 s2.
      scene_get_circumference x86_64 ?sc1 polygon_heap = Some (Finite s1, ?sc1, polygon_heap) \<and>
      scene_get_circumference x86_64 ?sc2 polygon_heap = Some (Finite s2, ?sc2, polygon_heap) \<and>
      \<bar>s1 - s2\<bar> \<le> 3 * 2 * (1 / 2 ^ 53) * 14"
    by simp
  with x86_64_double_conversion_exact rw perm show ?thesis
    by blast
qed

text \<open>
  C9 as stated, for every multiset of shapes, fails where one order overflows and the
  other does not. Adding \<^verbatim>\<open>DBL_MAX\<close> first, each quarter of a unit in the last place is
  rounded away and the sum is \<^verbatim>\<open>DBL_MAX\<close>; adding the two quarters first gives a half,
  and \<^verbatim>\<open>DBL_MAX\<close> plus a half rounds to even, which is \<open>2 ^ 1024\<close>: plus infinity.
\<close>

theorem reordered_scene_sums_counterexample:
  "square (Finite (DBL_MAX / 4)) = Inr (Square (Finite (DBL_MAX / 4))) \<and>
   square (Finite (DBL_MAX_ulp / 16)) = Inr (Square (Finite (DBL_MAX_ulp / 16))) \<and>
   mset (shapes \<lparr>shapes = [10, 20, 30]\<rparr>) = mset (shapes \<lparr>shapes = [20, 30, 10]\<rparr>) \<and>
   scene_get_circumference x86_64 \<lparr>shapes = [10, 20, 30]\<rparr> boundary_heap =
     Some (Finite DBL_MAX, \<lparr>shapes = [10, 20, 30]\<rparr>, boundary_heap) \<and>
   scene_get_circumference x86_64 \<lparr>shapes = [20, 30, 10]\<rparr> boundary_heap =
     Some (Infinity False, \<lparr>shapes = [20, 30, 10]\<rparr>, boundary_heap) \<and>
   \<not> within_relative 1 (Infinity False) DBL_MAX"
proof -
  have ctor: "square (Finite (DBL_MAX / 4)) = Inr (Square (Finite (DBL_MAX / 4)))"
    "square (Finite (DBL_MAX_ulp / 16)) = Inr (Square (Finite (DBL_MAX_ulp / 16)))"
    by (simp_all add: square_def int_to_double_def DBL_MAX_def DBL_MAX_ulp_def)
  have perm: "mset (shapes \<lparr>shapes = [10, 20, 30 :: addr]\<rparr>) = mset (shapes \<lparr>shapes = [20, 30, 10]\<rparr>)"
    by (simp add: add.commute)
  have h1: "boundary_heap 10 = Some (Square (Finite (DBL_MAX / 4)))"
    and h2: "boundary_heap 20 = Some (Square (Finite (DBL_MAX_ulp / 16)))"
    and h3: "boundary_heap 30 = Some (Square (Finite (DBL_MAX_ulp / 16)))"
    by (simp_all add: boundary_heap_def)
  have same: "boundary_heap(10 \<mapsto> Square (Finite (DBL_MAX / 4))) = boundary_heap"
    "boundary_heap(20 \<mapsto> Square (Finite (DBL_MAX_ulp / 16))) = boundary_heap"
    "boundary_heap(30 \<mapsto> Square (Finite (DBL_MAX_ulp / 16))) = boundary_heap"
    using h1 h2 h3 by (simp_all add: map_upd_triv)
  have first: "scene_get_circumference x86_64 \<lparr>shapes = [10, 20, 30]\<rparr> boundary_heap =
     Some (Finite DBL_MAX, \<lparr>shapes = [10, 20, 30]\<rparr>, boundary_heap)"
    by (simp add: scene_get_circumference_def h1 h2 h3 same big_square small_square
        to_double_def dbl_add_def to_long_double_def x86_64_fields binary64_0
        binary64_DBL_MAX binary64_DBL_MAX_quarter
        del: get_circumference.simps)
  have second: "scene_get_circumference x86_64 \<lparr>shapes = [20, 30, 10]\<rparr> boundary_heap =
     Some (Infinity False, \<lparr>shapes = [20, 30, 10]\<rparr>, boundary_heap)"
    by (simp add: scene_get_circumference_def h1 h2 h3 same big_square small_square
        to_double_def dbl_add_def to_long_double_def x86_64_fields binary64_0
        binary64_quarter_ulp binary64_half_ulp binary64_DBL_MAX_half add.commute
        del: get_circumference.simps)
  have far: "\<not> within_relative 1 (Infinity False) DBL_MAX"
    by (simp add: within_relative_def)
  from ctor perm first second far show ?thesis
    by (simp only:) simp
qed

text \<open>
  C10. When the same pointer to a shape is added to two scenes, the sum of each scene is
  its sum before plus one and the same value, the \<open>get_circumference\<close> of the shared
  shape; each query leaves the heap, and with it the shared shape, as it was.
\<close>

theorem shared_shape_same_contribution:
  assumes "double_conversion_exact P"
    and "h s = Some obj"
    and "scene_get_circumference P sc1 h = Some (t1, sc1', h1)"
    and "scene_get_circumference P sc2 h = Some (t2, sc2', h2)"
  shows "scene_get_circumference P (add_shape sc1 s) h =
           Some (dbl_add P t1 (fst (get_circumference P obj)), add_shape sc1 s, h) \<and>
         scene_get_circumference P (add_shape sc2 s) h =
           Some (dbl_add P t2 (fst (get_circumference P obj)), add_shape sc2 s, h)"
  using scene_get_circumference_add_shape [OF assms(1,2,3)]
    scene_get_circumference_add_shape [OF assms(1,2,4)]
  by simp

theorem shared_shape_same_contribution_witness:
  "double_conversion_exact exact_platform \<and>
   [1 \<mapsto> Circle (Finite 1), 2 \<mapsto> Square (Finite 1)] 2 = Some (Square (Finite 1)) \<and>
   scene_get_circumference exact_platform \<lparr>shapes = []\<rparr>
       [1 \<mapsto> Circle (Finite 1), 2 \<mapsto> Square (Finite 1)] =
     Some (Finite 0, \<lparr>shapes = []\<rparr>, [1 \<mapsto> Circle (Finite 1), 2 \<mapsto> Square (Finite 1)]) \<and>
   scene_get_circumference exact_platform \<lparr>shapes = [1]\<rparr>
       [1 \<mapsto> Circle (Finite 1), 2 \<mapsto> Square (Finite 1)] =
     Some (Finite (2 * pi), \<lparr>shapes = [1]\<rparr>,
           [1 \<mapsto> Circle (Finite 1), 2 \<mapsto> Square (Finite 1)]) \<and>
   scene_get_circumference exact_platform (add_shape \<lparr>shapes = []\<rparr> 2)
       [1 \<mapsto> Circle (Finite 1), 2 \<mapsto> Square (Finite 1)] =
     Some (Finite 4, \<lparr>shapes = [2]\<rparr>, [1 \<mapsto> Circle (Finite 1), 2 \<mapsto> Square (Finite 1)]) \<and>
   scene_get_circumference exact_platform (add_shape \<lparr>shapes = [1]\<rparr> 2)
       [1 \<mapsto> Circle (Finite 1), 2 \<mapsto> Square (Finite 1)] =
     Some (Finite (2 * pi + 4), \<lparr>shapes = [1, 2]\<rparr>,
           [1 \<mapsto> Circle (Finite 1), 2 \<mapsto> Square (Finite 1)])"
proof -
  let ?h = "[1 \<mapsto> Circle (Finite 1), 2 \<mapsto> Square (Finite 1)] :: heap"
  have ok: "double_conversion_exact exact_platform"
    by (simp add: double_conversion_exact_def exact_platform_def)
  have obj: "?h 2 = Some (Square (Finite 1))"
    by simp
  have same: "?h(1 \<mapsto> Circle (Finite 1)) = ?h"
    by (rule map_upd_triv) simp
  have r1: "scene_get_circumference exact_platform \<lparr>shapes = []\<rparr> ?h =
              Some (Finite 0, \<lparr>shapes = []\<rparr>, ?h)"
    by (simp add: scene_get_circumference_def exact_platform_def to_double_def)
  have r2: "scene_get_circumference exact_platform \<lparr>shapes = [1]\<rparr> ?h =
              Some (Finite (2 * pi), \<lparr>shapes = [1]\<rparr>, ?h)"
    using same
    by (simp add: scene_get_circumference_def exact_platform_def to_double_def ldbl_mul_def
        dbl_add_def to_long_double_def int_to_double_def arctan_one)
  show ?thesis
    using ok obj r1 r2 shared_shape_same_contribution [OF ok obj r1 r2]
    by (simp add: exact_platform_def to_double_def ldbl_mul_def dbl_add_def
        to_long_double_def add_shape_def)
qed

end
